theory Spec2Isabelle
  imports Main "HOL-Library.Word" "HOL-Library.Monad_Syntax"
begin

unbundle bit_operations_syntax

section \<open>Bytes, little-endian fields and raw memory\<close>

type_synonym byte = "8 word"
type_synonym bytes = "byte list"

text \<open>
  A buffer is the list of its bytes. A read or a write that leaves the buffer is
  undefined behaviour in the C source; here it is the value \<open>None\<close>.
\<close>

fun le_encode :: "nat \<Rightarrow> 'a::len word \<Rightarrow> bytes" where
  "le_encode 0 w = []"
| "le_encode (Suc n) w = ucast w # le_encode n (drop_bit 8 w)"

fun le_decode :: "bytes \<Rightarrow> 'a::len word" where
  "le_decode [] = 0"
| "le_decode (b # bs) = ucast b OR push_bit 8 (le_decode bs)"

definition load_bytes :: "bytes \<Rightarrow> nat \<Rightarrow> nat \<Rightarrow> bytes option" where
  "load_bytes m off n = (if off + n \<le> length m then Some (take n (drop off m)) else None)"

definition store_bytes :: "bytes \<Rightarrow> nat \<Rightarrow> bytes \<Rightarrow> bytes option" where
  "store_bytes m off bs =
     (if off + length bs \<le> length m
      then Some (take off m @ bs @ drop (off + length bs) m) else None)"

definition load16 :: "bytes \<Rightarrow> nat \<Rightarrow> 16 word option" where
  "load16 m off = map_option le_decode (load_bytes m off 2)"

definition load32 :: "bytes \<Rightarrow> nat \<Rightarrow> 32 word option" where
  "load32 m off = map_option le_decode (load_bytes m off 4)"

definition load64 :: "bytes \<Rightarrow> nat \<Rightarrow> 64 word option" where
  "load64 m off = map_option le_decode (load_bytes m off 8)"

definition store64 :: "bytes \<Rightarrow> nat \<Rightarrow> 64 word \<Rightarrow> bytes option" where
  "store64 m off w = store_bytes m off (le_encode 8 w)"

section \<open>Constants of blosc.h\<close>

text \<open>
  \<open>schunk.c\<close> uses four macros of \<open>blosc.h\<close> and the size of the header struct. The
  header file is missing from the sources, so the operations take these values as a
  parameter.
\<close>

record blosc_consts =
  BLOSC_MAX_FILTERS :: nat
  BLOSC_DELTA :: byte
  BLOSC_HEADER_PACKED_LENGTH :: "64 word"
  BLOSC_MAX_OVERHEAD :: "64 word"
  sizeof_schunk_header :: "64 word"

section \<open>Filter descriptor\<close>

text \<open>
  Modelled from the spec: the declaration of \<open>schunk_params\<close> is in \<open>blosc.h\<close>, which is
  missing. The fields are the four that \<open>schunk.c\<close> reads: the array of filter codes, one
  byte each, and three small integers.
\<close>

record schunk_params =
  params_filters :: "byte list"
  params_filters_meta :: "16 word"
  params_compressor :: "16 word"
  params_clevel :: "16 word"

text \<open>
  \<open>encode_filters\<close>: the loop \<open>enc_filters += params->filters[i] << (i * 3)\<close> over the
  \<open>BLOSC_MAX_FILTERS\<close> slots of the array, the sum truncated to 16 bits at each step.
\<close>

fun encode_loop :: "nat \<Rightarrow> byte list \<Rightarrow> 16 word \<Rightarrow> 16 word" where
  "encode_loop i [] enc = enc"
| "encode_loop i (f # fs) enc = encode_loop (Suc i) fs (enc + push_bit (i * 3) (ucast f))"

definition encode_filters :: "blosc_consts \<Rightarrow> schunk_params \<Rightarrow> 16 word option" where
  "encode_filters K params =
     (if length (params_filters params) = BLOSC_MAX_FILTERS K
      then Some (encode_loop 0 (params_filters params) 0) else None)"

text \<open>
  \<open>decode_filters\<close>: \<open>filters[i] = enc_filters & 0x3; enc_filters >>= 3\<close>, for
  \<open>BLOSC_MAX_FILTERS\<close> slots.
\<close>

fun decode_loop :: "nat \<Rightarrow> 16 word \<Rightarrow> byte list" where
  "decode_loop 0 enc = []"
| "decode_loop (Suc n) enc = ucast (enc AND 3) # decode_loop n (drop_bit 3 enc)"

definition decode_filters :: "blosc_consts \<Rightarrow> 16 word \<Rightarrow> byte list" where
  "decode_filters K enc = decode_loop (BLOSC_MAX_FILTERS K) enc"


section \<open>The live super-chunk\<close>

text \<open>
  A chunk pointer of the header is \<open>NULL\<close>, or points to the bytes of a buffer, or is
  left pointing to a buffer that has been freed (\<open>Dangling\<close>).
\<close>

datatype chunk_ptr = NULL | Ptr bytes | Dangling

text \<open>
  Modelled from the spec: the declaration of \<open>schunk_header\<close> is in \<open>blosc.h\<close>, which is
  missing. The fields are those of the specification's data model that \<open>schunk.c\<close> reads
  or writes; \<open>compressor\<close>, \<open>clevel\<close> and \<open>filters\<close> have the 16 bits that \<open>schunk.c\<close>
  reads at bytes 4, 6 and 8 of an image, whose first 40 bytes are a copy of the struct.
  \<open>data\<close> is \<open>None\<close> for the null pointer, and otherwise the vector of chunk buffers. A
  chunk buffer is the memory behind the pointer: a chunk of \<open>cbytes\<close> bytes may sit in a
  larger buffer.
\<close>

record schunk_header =
  version :: byte
  compressor :: "16 word"
  clevel :: "16 word"
  filters :: "16 word"
  filters_meta :: "16 word"
  nchunks :: "64 word"
  nbytes :: "64 word"
  cbytes :: "64 word"
  filters_chunk :: chunk_ptr
  codec_chunk :: chunk_ptr
  metadata_chunk :: chunk_ptr
  userdata_chunk :: chunk_ptr
  data :: "bytes list option"

definition nth_opt :: "'a list \<Rightarrow> nat \<Rightarrow> 'a option" where
  "nth_opt xs i = (if i < length xs then Some (xs ! i) else None)"

text \<open>\<open>data[i]\<close> for a signed index: outside the vector it is undefined behaviour.\<close>

definition data_at :: "bytes list option \<Rightarrow> int \<Rightarrow> bytes option" where
  "data_at d i =
     (case d of None \<Rightarrow> None
      | Some ds \<Rightarrow> if 0 \<le> i \<and> nat i < length ds then Some (ds ! nat i) else None)"

definition blosc2_new_schunk :: "blosc_consts \<Rightarrow> schunk_params \<Rightarrow> schunk_header option" where
  "blosc2_new_schunk K params =
     do {
       enc \<leftarrow> encode_filters K params;
       Some \<lparr> version = 0, compressor = params_compressor params,
              clevel = params_clevel params, filters = enc,
              filters_meta = params_filters_meta params,
              nchunks = 0, nbytes = 0, cbytes = sizeof_schunk_header K,
              filters_chunk = NULL, codec_chunk = NULL, metadata_chunk = NULL,
              userdata_chunk = NULL, data = None \<rparr>
     }"

text \<open>
  \<open>blosc2_append_chunk\<close>. The sizes are the \<open>int32_t\<close> at bytes 4 and 12 of the chunk.
  \<open>realloc\<close> keeps the first \<open>nchunks\<close> slots of the vector; were the vector shorter, the
  slots in between would hold indeterminate pointers, which the model refuses. The
  counters are 64-bit and wrap; \<open>cbytes + sizeof(void*)\<close> adds 8. Result: the returned
  \<open>size_t\<close> and the header.
\<close>

definition blosc2_append_chunk ::
  "schunk_header \<Rightarrow> bytes \<Rightarrow> bool \<Rightarrow> (64 word \<times> schunk_header) option" where
  "blosc2_append_chunk sc chunk copy =
     do {
       let n = nchunks sc;
       nb \<leftarrow> load32 chunk 4;
       cb \<leftarrow> load32 chunk 12;
       chunk' \<leftarrow> (if copy then load_bytes chunk 0 (unat (scast cb :: 64 word)) else Some chunk);
       let ds = (case data sc of None \<Rightarrow> [] | Some ds \<Rightarrow> ds);
       if sint n < 0 \<or> length ds < nat (sint n) then None
       else Some (n + 1,
                  sc \<lparr> data := Some (take (nat (sint n)) ds @ [chunk']),
                       nchunks := n + 1,
                       nbytes := nbytes sc + scast nb,
                       cbytes := cbytes sc + (scast cb + 8) \<rparr>)
     }"

section \<open>The codec and its process-wide state\<close>

text \<open>
  The block codec, the delta codec and the registry of codec names are outside
  \<open>schunk.c\<close>. They are parameters here. \<open>'g\<close> is the library's global state (the current
  compressor and the current super-chunk); \<open>blosc_set_schunk\<close> is handed the header as it
  is at the call. \<open>blosc_compress g clevel doshuffle typesize nbytes src destsize\<close> returns
  the \<open>int\<close> result and the contents of the destination buffer; \<open>blosc_decompress g src
  dest destsize\<close> likewise, from the old contents of \<open>dest\<close>.
\<close>

record 'g codec =
  blosc_compress ::
    "'g \<Rightarrow> 32 word \<Rightarrow> 32 word \<Rightarrow> 64 word \<Rightarrow> 64 word \<Rightarrow> bytes \<Rightarrow> 64 word \<Rightarrow> 32 word \<times> bytes"
  blosc_decompress :: "'g \<Rightarrow> bytes \<Rightarrow> bytes \<Rightarrow> 64 word \<Rightarrow> 32 word \<times> bytes"
  blosc_compcode_to_compname :: "32 word \<Rightarrow> string"
  blosc_set_compressor :: "string \<Rightarrow> 'g \<Rightarrow> 'g"
  blosc_set_schunk :: "schunk_header \<Rightarrow> 'g \<Rightarrow> 'g"
  delta_encoder8 :: "bytes \<Rightarrow> 32 word \<Rightarrow> 32 word \<Rightarrow> bytes \<Rightarrow> bytes \<Rightarrow> bytes"
  delta_decoder8 :: "bytes \<Rightarrow> 32 word \<Rightarrow> 32 word \<Rightarrow> bytes \<Rightarrow> bytes"

text \<open>
  \<open>blosc2_set_delta_ref\<close>. Result: the returned \<open>int\<close>, the header, and the names of the
  buffers allocated by the call that are still allocated and not owned by the header
  when it returns. The old reference is read as \<open>*(uint32_t*)(filters_chunk + 4)\<close>, and
  after \<open>free\<close> the field keeps the stale pointer until a new one is stored.
\<close>

definition blosc2_set_delta_ref ::
  "blosc_consts \<Rightarrow> 'g codec \<Rightarrow> 'g \<Rightarrow> schunk_header \<Rightarrow> 64 word \<Rightarrow> bytes
   \<Rightarrow> (32 word \<times> schunk_header \<times> string list) option" where
  "blosc2_set_delta_ref K cd g sc nbytes_arg ref =
     do {
       let dec_filters = decode_filters K (filters sc);
       f0 \<leftarrow> nth_opt dec_filters 0;
       if f0 = BLOSC_DELTA K then
         do {
           sc1 \<leftarrow> (case filters_chunk sc of
                    NULL \<Rightarrow> Some sc
                  | Ptr old \<Rightarrow>
                      do {
                        v \<leftarrow> load32 old 4;
                        Some (sc \<lparr> cbytes := cbytes sc - ucast v, filters_chunk := Dangling \<rparr>)
                      }
                  | Dangling \<Rightarrow> None);
           let (cb, buf) = blosc_compress cd g 0 0 1 nbytes_arg ref
                             (nbytes_arg + BLOSC_MAX_OVERHEAD K);
           if sint cb < 0 then Some (cb, sc1, [])
           else Some (cb, sc1 \<lparr> filters_chunk := Ptr buf, cbytes := cbytes sc1 + scast cb \<rparr>, [])
         }
       else Some (- 1, sc, [''dec_filters''])
     }"

text \<open>
  \<open>blosc2_append_buffer\<close>, lines 165 to 177 first: select the compressor, install the
  super-chunk, compress, and append the chunk without a copy.
\<close>

definition append_buffer_compress ::
  "blosc_consts \<Rightarrow> 'g codec \<Rightarrow> 'g \<Rightarrow> schunk_header \<Rightarrow> 32 word \<Rightarrow> 64 word \<Rightarrow> 64 word \<Rightarrow> bytes
   \<Rightarrow> (64 word \<times> schunk_header \<times> 'g \<times> string list) option" where
  "append_buffer_compress K cd g sc doshuffle typesize nbytes_arg src =
     (let g1 = blosc_set_compressor cd (blosc_compcode_to_compname cd (ucast (compressor sc))) g;
          g2 = blosc_set_schunk cd sc g1;
          (cb, chunk) = blosc_compress cd g2 (ucast (clevel sc)) doshuffle typesize nbytes_arg src
                          (nbytes_arg + BLOSC_MAX_OVERHEAD K)
      in if sint cb < 0 then Some (scast cb, sc, g2, [])
         else do {
           (r, sc') \<leftarrow> blosc2_append_chunk sc chunk False;
           Some (r, sc', g2, [])
         })"

definition blosc2_append_buffer ::
  "blosc_consts \<Rightarrow> 'g codec \<Rightarrow> 'g \<Rightarrow> schunk_header \<Rightarrow> 64 word \<Rightarrow> 64 word \<Rightarrow> bytes
   \<Rightarrow> (64 word \<times> schunk_header \<times> 'g \<times> string list) option" where
  "blosc2_append_buffer K cd g sc typesize nbytes_arg src =
     do {
       let dec_filters = decode_filters K (filters sc);
       f0 \<leftarrow> nth_opt dec_filters 0;
       if f0 = BLOSC_DELTA K then
         do {
           f1 \<leftarrow> nth_opt dec_filters 1;
           case filters_chunk sc of
             NULL \<Rightarrow>
               do {
                 (ret, sc1, lk) \<leftarrow> blosc2_set_delta_ref K cd g sc nbytes_arg src;
                 if sint ret < 0 then Some (scast ret, sc1, g, lk @ [''chunk'', ''dec_filters''])
                 else append_buffer_compress K cd g sc1 (ucast f1) typesize nbytes_arg src
               }
           | _ \<Rightarrow> append_buffer_compress K cd g sc (ucast f1) typesize nbytes_arg src
         }
       else append_buffer_compress K cd g sc (ucast f0) typesize nbytes_arg src
     }"

text \<open>
  \<open>blosc2_decompress_chunk\<close>. Result: the returned \<open>int\<close>, the destination buffer, the
  global state and the header, which no statement of the function writes. The index and the count are compared as signed 64-bit values, the
  capacity and the chunk's size as signed 32-bit values.
\<close>

definition blosc2_decompress_chunk ::
  "blosc_consts \<Rightarrow> 'g codec \<Rightarrow> 'g \<Rightarrow> schunk_header \<Rightarrow> 64 word \<Rightarrow> bytes \<Rightarrow> 32 word
   \<Rightarrow> (32 word \<times> bytes \<times> 'g \<times> schunk_header) option" where
  "blosc2_decompress_chunk K cd g sc nchunk dest nbytes_arg =
     (if sint (nchunks sc) \<le> sint nchunk then Some (- 10, dest, g, sc)
      else do {
        src \<leftarrow> data_at (data sc) (sint nchunk);
        nbytes' \<leftarrow> load32 src 4;
        if sint nbytes_arg < sint nbytes' then Some (- 11, dest, g, sc)
        else
          (let g1 = blosc_set_schunk cd sc g;
               (chunksize, dest') = blosc_decompress cd g1 src dest (scast nbytes_arg)
           in Some (chunksize, dest', g1, sc))
      })"


section \<open>The packed image\<close>

text \<open>
  Modelled from the spec: the layout of \<open>schunk_header\<close>, declared in the missing
  \<open>blosc.h\<close>. These are the first 40 bytes of the struct, which \<open>memcpy\<close> moves between
  the two forms. The offsets 4, 6, 8, 16, 24 and 32 are those \<open>schunk.c\<close> reads in a
  packed image; byte 0 holds \<open>version\<close>, bytes 10 and 11 \<open>filters_meta\<close>, and the bytes of
  fields that \<open>schunk.c\<close> never touches are zero, as \<open>calloc\<close> leaves them.
\<close>

definition header_prefix :: "schunk_header \<Rightarrow> bytes" where
  "header_prefix sc =
     [version sc, 0, 0, 0] @ le_encode 2 (compressor sc) @ le_encode 2 (clevel sc)
     @ le_encode 2 (filters sc) @ le_encode 2 (filters_meta sc) @ [0, 0, 0, 0]
     @ le_encode 8 (nchunks sc) @ le_encode 8 (nbytes sc) @ le_encode 8 (cbytes sc)"

text \<open>
  \<open>malloc\<close> and \<open>realloc\<close>: the new bytes are indeterminate; \<open>junk\<close> gives the byte found at
  each position.
\<close>

definition malloc_block :: "(nat \<Rightarrow> byte) \<Rightarrow> nat \<Rightarrow> bytes" where
  "malloc_block junk n = map junk [0..<n]"

definition realloc_block :: "(nat \<Rightarrow> byte) \<Rightarrow> bytes \<Rightarrow> nat \<Rightarrow> bytes" where
  "realloc_block junk m n = take n m @ map junk [length m..<n]"

text \<open>
  The number of rounds of \<open>for (i = 0; i < n; i++)\<close> with \<open>int i\<close> and a 64-bit signed
  bound: beyond \<open>INT_MAX\<close> rounds the counter overflows.
\<close>

definition loop_count :: "64 word \<Rightarrow> nat option" where
  "loop_count n = (if sint n > 2147483647 then None else Some (nat (sint n)))"

definition add_chunk_cbytes :: "chunk_ptr \<Rightarrow> 64 word \<Rightarrow> 64 word option" where
  "add_chunk_cbytes p len =
     (case p of
        NULL \<Rightarrow> Some len
      | Ptr c \<Rightarrow> do { cb \<leftarrow> load32 c 12; Some (len + scast cb) }
      | Dangling \<Rightarrow> None)"

fun packed_length_loop :: "bytes list \<Rightarrow> nat \<Rightarrow> nat \<Rightarrow> 64 word \<Rightarrow> 64 word option" where
  "packed_length_loop ds i 0 len = Some len"
| "packed_length_loop ds i (Suc k) len =
     do {
       c \<leftarrow> nth_opt ds i;
       cb \<leftarrow> load32 c 12;
       packed_length_loop ds (Suc i) k (len + 8 + scast cb)
     }"

definition blosc2_get_packed_length :: "blosc_consts \<Rightarrow> schunk_header \<Rightarrow> 64 word option" where
  "blosc2_get_packed_length K sc =
     do {
       l1 \<leftarrow> add_chunk_cbytes (filters_chunk sc) (BLOSC_HEADER_PACKED_LENGTH K);
       l2 \<leftarrow> add_chunk_cbytes (codec_chunk sc) l1;
       l3 \<leftarrow> add_chunk_cbytes (metadata_chunk sc) l2;
       l4 \<leftarrow> add_chunk_cbytes (userdata_chunk sc) l3;
       case data sc of
         None \<Rightarrow> Some l4
       | Some ds \<Rightarrow> do { k \<leftarrow> loop_count (nchunks sc); packed_length_loop ds 0 k l4 }
     }"

text \<open>
  \<open>pack_copy_chunk\<close>: the state is the image and the two running totals \<open>*cbytes\<close> and
  \<open>*nbytes\<close>.
\<close>

definition pack_copy_chunk ::
  "chunk_ptr \<Rightarrow> nat \<Rightarrow> bytes \<times> 64 word \<times> 64 word \<Rightarrow> (bytes \<times> 64 word \<times> 64 word) option" where
  "pack_copy_chunk chunk offset st =
     (case st of (packed, cbytes_run, nbytes_run) \<Rightarrow>
        (case chunk of
           Ptr c \<Rightarrow>
             do {
               nb \<leftarrow> load32 c 4;
               cb \<leftarrow> load32 c 12;
               bs \<leftarrow> load_bytes c 0 (unat (scast cb :: 64 word));
               p1 \<leftarrow> store_bytes packed (unat cbytes_run) bs;
               p2 \<leftarrow> store64 p1 offset cbytes_run;
               Some (p2, cbytes_run + scast cb, nbytes_run + scast nb)
             }
         | NULL \<Rightarrow> do { p1 \<leftarrow> store64 packed offset 0; Some (p1, cbytes_run, nbytes_run) }
         | Dangling \<Rightarrow> None))"

fun pack_data_loop ::
  "bytes list \<Rightarrow> nat \<Rightarrow> nat \<Rightarrow> nat \<Rightarrow> bytes \<times> 64 word \<times> 64 word
   \<Rightarrow> (bytes \<times> 64 word \<times> 64 word) option" where
  "pack_data_loop ds tp i 0 st = Some st"
| "pack_data_loop ds tp i (Suc k) st =
     (case st of (packed, cbytes_run, nbytes_run) \<Rightarrow>
        do {
          c \<leftarrow> nth_opt ds i;
          nb \<leftarrow> load32 c 4;
          cb \<leftarrow> load32 c 12;
          bs \<leftarrow> load_bytes c 0 (unat (scast cb :: 64 word));
          p1 \<leftarrow> store_bytes packed (unat cbytes_run) bs;
          p2 \<leftarrow> store64 p1 (tp + 8 * i) cbytes_run;
          pack_data_loop ds tp (Suc i) k (p2, cbytes_run + scast cb, nbytes_run + scast nb)
        })"

text \<open>
  \<open>blosc2_pack_schunk\<close>. A failed \<open>assert\<close> aborts: the result is \<open>None\<close>.
\<close>

definition blosc2_pack_schunk ::
  "blosc_consts \<Rightarrow> (nat \<Rightarrow> byte) \<Rightarrow> schunk_header \<Rightarrow> bytes option" where
  "blosc2_pack_schunk K junk sc =
     do {
       packed_len \<leftarrow> blosc2_get_packed_length K sc;
       let packed = malloc_block junk (unat packed_len);
       p0 \<leftarrow> store_bytes packed 0 (header_prefix sc);
       st1 \<leftarrow> pack_copy_chunk (filters_chunk sc) 40
                (p0, BLOSC_HEADER_PACKED_LENGTH K, BLOSC_HEADER_PACKED_LENGTH K);
       st2 \<leftarrow> pack_copy_chunk (codec_chunk sc) 48 st1;
       st3 \<leftarrow> pack_copy_chunk (metadata_chunk sc) 56 st2;
       (p4, cb4, nb4) \<leftarrow> pack_copy_chunk (userdata_chunk sc) 64 st3;
       let data_offsets_len = nchunks sc * 8;
       let tp = packed_len - data_offsets_len;
       p5 \<leftarrow> store64 p4 72 tp;
       (p6, cb6, nb6) \<leftarrow>
          (case data sc of
             None \<Rightarrow> Some (p5, cb4, nb4)
           | Some ds \<Rightarrow>
               do { k \<leftarrow> loop_count (nchunks sc); pack_data_loop ds (unat tp) 0 k (p5, cb4, nb4) });
       let cb7 = cb6 + data_offsets_len;
       let nb7 = nb6 + data_offsets_len;
       if cb7 \<noteq> packed_len then None
       else do {
         p7 \<leftarrow> store64 p6 16 (nchunks sc);
         p8 \<leftarrow> store64 p7 24 nb7;
         store64 p8 32 cb7
       }
     }"

text \<open>
  \<open>unpack_copy_chunk\<close>: returns the chunk pointer, the header and the two running
  totals (\<open>*nbytes\<close>, then \<open>*cbytes\<close>).
\<close>

definition unpack_copy_chunk ::
  "bytes \<Rightarrow> nat \<Rightarrow> schunk_header \<times> 64 word \<times> 64 word
   \<Rightarrow> (chunk_ptr \<times> schunk_header \<times> 64 word \<times> 64 word) option" where
  "unpack_copy_chunk packed offset st =
     (case st of (sc, nbytes_run, cbytes_run) \<Rightarrow>
        do {
          off \<leftarrow> load64 packed offset;
          if off \<noteq> 0 then
            do {
              nb \<leftarrow> load32 packed (unat off + 4);
              cb \<leftarrow> load32 packed (unat off + 12);
              dst \<leftarrow> load_bytes packed (unat off) (unat (scast cb :: 64 word));
              Some (Ptr dst,
                    sc \<lparr> nbytes := nbytes sc + scast nb, cbytes := cbytes sc + scast cb \<rparr>,
                    nbytes_run + scast nb, cbytes_run + scast cb)
            }
          else Some (NULL, sc, nbytes_run, cbytes_run)
        })"

text \<open>
  The loop of \<open>blosc2_unpack_schunk\<close>; the vector holds the slots filled so far, and the
  totals are \<open>cbytes\<close>, then \<open>nbytes\<close>.
\<close>

fun unpack_data_loop ::
  "bytes \<Rightarrow> nat \<Rightarrow> nat \<Rightarrow> nat \<Rightarrow> bytes list \<times> 64 word \<times> 64 word
   \<Rightarrow> (bytes list \<times> 64 word \<times> 64 word) option" where
  "unpack_data_loop packed tp i 0 st = Some st"
| "unpack_data_loop packed tp i (Suc k) st =
     (case st of (ds, cbytes_run, nbytes_run) \<Rightarrow>
        do {
          entry \<leftarrow> load64 packed (tp + 8 * i);
          chunk_size \<leftarrow> load32 packed (unat entry + 12);
          new_chunk \<leftarrow> load_bytes packed (unat entry) (unat (scast chunk_size :: 64 word));
          nb \<leftarrow> load32 packed (unat entry + 4);
          unpack_data_loop packed tp (Suc i) k
            (ds @ [new_chunk], cbytes_run + scast chunk_size, nbytes_run + scast nb)
        })"

text \<open>
  \<open>blosc2_unpack_schunk\<close>. \<open>addr\<close> is the address of the image: the source compares the
  pointer \<open>packed + offset\<close> of the table with \<open>NULL\<close>.
\<close>

definition blosc2_unpack_schunk ::
  "blosc_consts \<Rightarrow> 64 word \<Rightarrow> bytes \<Rightarrow> schunk_header option" where
  "blosc2_unpack_schunk K addr packed =
     do {
       v \<leftarrow> nth_opt packed 0;
       co \<leftarrow> load16 packed 4;
       cl \<leftarrow> load16 packed 6;
       fi \<leftarrow> load16 packed 8;
       fm \<leftarrow> load16 packed 10;
       n16 \<leftarrow> load64 packed 16;
       nb24 \<leftarrow> load64 packed 24;
       cb32 \<leftarrow> load64 packed 32;
       let sc0 = \<lparr> version = v, compressor = co, clevel = cl, filters = fi, filters_meta = fm,
                   nchunks = n16, nbytes = nb24, cbytes = cb32,
                   filters_chunk = NULL, codec_chunk = NULL, metadata_chunk = NULL,
                   userdata_chunk = NULL, data = None \<rparr>;
       (c1, sc1, nb1, cb1) \<leftarrow> unpack_copy_chunk packed 40
           (sc0, BLOSC_HEADER_PACKED_LENGTH K, BLOSC_HEADER_PACKED_LENGTH K);
       (c2, sc2, nb2, cb2) \<leftarrow> unpack_copy_chunk packed 48 (sc1 \<lparr> filters_chunk := c1 \<rparr>, nb1, cb1);
       (c3, sc3, nb3, cb3) \<leftarrow> unpack_copy_chunk packed 56 (sc2 \<lparr> codec_chunk := c2 \<rparr>, nb2, cb2);
       (c4, sc4, nb4, cb4) \<leftarrow> unpack_copy_chunk packed 64 (sc3 \<lparr> metadata_chunk := c3 \<rparr>, nb3, cb3);
       let sc5 = sc4 \<lparr> userdata_chunk := c4 \<rparr>;
       off72 \<leftarrow> load64 packed 72;
       n \<leftarrow> load64 packed 16;
       let nb5 = nb4 + n * 8;
       let cb5 = cb4 + n * 8;
       (ds, cb6, nb6) \<leftarrow>
          (if addr + off72 \<noteq> 0
           then do { k \<leftarrow> loop_count n; unpack_data_loop packed (unat off72) 0 k ([], cb5, nb5) }
           else Some ([], cb5, nb5));
       nb24' \<leftarrow> load64 packed 24;
       cb32' \<leftarrow> load64 packed 32;
       if nb24' \<noteq> nb6 \<or> cb32' \<noteq> cb6 then None
       else Some (sc5 \<lparr> data := Some ds, nbytes := nb6, cbytes := cb6 \<rparr>)
     }"


text \<open>
  \<open>blosc2_packed_append_chunk\<close>. \<open>memmove\<close> reads the table before it writes it; the
  four counters are read back from the image when they are updated.
\<close>

definition blosc2_packed_append_chunk ::
  "(nat \<Rightarrow> byte) \<Rightarrow> bytes \<Rightarrow> bytes \<Rightarrow> bytes option" where
  "blosc2_packed_append_chunk junk packed chunk =
     do {
       n \<leftarrow> load64 packed 16;
       packed_len \<leftarrow> load64 packed 32;
       data_offsets \<leftarrow> load64 packed 72;
       let chunk_offset = packed_len - n * 8;
       nb \<leftarrow> load32 chunk 4;
       cb \<leftarrow> load32 chunk 12;
       let p0 = realloc_block junk packed (unat (packed_len + scast cb + 8));
       let new_data = unat (data_offsets + scast cb);
       tbl \<leftarrow> load_bytes p0 (unat data_offsets) (unat (n * 8));
       p1 \<leftarrow> store_bytes p0 new_data tbl;
       p2 \<leftarrow> store64 p1 (new_data + 8 * unat n) chunk_offset;
       bs \<leftarrow> load_bytes chunk 0 (unat (scast cb :: 64 word));
       p3 \<leftarrow> store_bytes p2 (unat chunk_offset) bs;
       v16 \<leftarrow> load64 p3 16;
       p4 \<leftarrow> store64 p3 16 (v16 + 1);
       v24 \<leftarrow> load64 p4 24;
       p5 \<leftarrow> store64 p4 24 (v24 + (scast nb + 8));
       v32 \<leftarrow> load64 p5 32;
       p6 \<leftarrow> store64 p5 32 (v32 + (scast cb + 8));
       v72 \<leftarrow> load64 p6 72;
       store64 p6 72 (v72 + scast cb)
     }"

text \<open>The memory behind a pointer \<open>packed + p\<close>.\<close>

definition mem_from :: "bytes \<Rightarrow> int \<Rightarrow> bytes option" where
  "mem_from m p = (if 0 \<le> p \<and> nat p \<le> length m then Some (drop (nat p) m) else None)"

text \<open>
  \<open>blosc2_packed_append_buffer\<close>, lines 470 to 490 first. Result: the returned image
  (\<open>None\<close> for a null return), the global state and the buffers left allocated.
\<close>

definition packed_append_compress ::
  "blosc_consts \<Rightarrow> 'g codec \<Rightarrow> (nat \<Rightarrow> byte) \<Rightarrow> 'g \<Rightarrow> bytes \<Rightarrow> 32 word \<Rightarrow> 32 word \<Rightarrow> 32 word
   \<Rightarrow> 64 word \<Rightarrow> 64 word \<Rightarrow> bytes \<Rightarrow> (bytes option \<times> 'g \<times> string list) option" where
  "packed_append_compress K cd junk g packed cname clevel' doshuffle typesize nbytes_arg src =
     (let g1 = blosc_set_compressor cd (blosc_compcode_to_compname cd cname) g;
          (cb, chunk) = blosc_compress cd g1 clevel' doshuffle typesize nbytes_arg src
                          (nbytes_arg + BLOSC_MAX_OVERHEAD K)
      in if sint cb < 0 then Some (None, g1, [])
         else do {
           new_packed \<leftarrow> blosc2_packed_append_chunk junk packed chunk;
           Some (Some new_packed, g1, [])
         })"

text \<open>
  \<open>filters_chunk\<close> is the pointer \<open>packed + *(uint64_t*)(packed + 40)\<close>: the address
  \<open>addr\<close> of the image plus the offset field, compared with \<open>NULL\<close>.
\<close>

definition blosc2_packed_append_buffer ::
  "blosc_consts \<Rightarrow> 'g codec \<Rightarrow> (nat \<Rightarrow> byte) \<Rightarrow> 'g \<Rightarrow> 64 word \<Rightarrow> bytes \<Rightarrow> 64 word \<Rightarrow> 64 word \<Rightarrow> bytes
   \<Rightarrow> (bytes option \<times> 'g \<times> string list) option" where
  "blosc2_packed_append_buffer K cd junk g addr packed typesize nbytes_arg src =
     do {
       cname \<leftarrow> load16 packed 4;
       cl \<leftarrow> load16 packed 6;
       off40 \<leftarrow> load64 packed 40;
       let filters_chunk_ptr = addr + off40;
       enc \<leftarrow> load16 packed 8;
       let dec = decode_filters K enc;
       let dest = malloc_block junk (unat nbytes_arg);
       f0 \<leftarrow> nth_opt dec 0;
       if f0 = BLOSC_DELTA K then
         do {
           f1 \<leftarrow> nth_opt dec 1;
           if filters_chunk_ptr = 0 then Some (None, g, [''filters'', ''chunk'', ''dest''])
           else do {
             ref \<leftarrow> mem_from packed (int (unat off40));
             let dest' = delta_encoder8 cd ref 0 (ucast nbytes_arg) src dest;
             packed_append_compress K cd junk g packed (scast cname) (scast cl) (ucast f1)
               typesize nbytes_arg dest'
           }
         }
       else packed_append_compress K cd junk g packed (scast cname) (scast cl) (ucast f0)
              typesize nbytes_arg src
     }"

text \<open>
  \<open>blosc2_packed_decompress_chunk\<close>. The index is an \<open>int\<close>; \<open>data[nchunk]\<close> is the
  64-bit entry at \<open>offset + 8 * nchunk\<close> from the start of the image. Result: the
  returned \<open>int\<close>, the buffer stored in \<open>*dest\<close> (\<open>None\<close> when nothing is stored), the global
  state and the buffers left allocated.
\<close>

definition data_entry_pos :: "64 word \<Rightarrow> 32 word \<Rightarrow> int" where
  "data_entry_pos data_offsets nchunk = sint data_offsets + 8 * sint nchunk"

definition blosc2_packed_decompress_chunk ::
  "blosc_consts \<Rightarrow> 'g codec \<Rightarrow> (nat \<Rightarrow> byte) \<Rightarrow> 'g \<Rightarrow> bytes \<Rightarrow> 32 word
   \<Rightarrow> (32 word \<times> bytes option \<times> 'g \<times> string list) option" where
  "blosc2_packed_decompress_chunk K cd junk g packed nchunk =
     do {
       n \<leftarrow> load64 packed 16;
       enc \<leftarrow> load16 packed 8;
       let dec = decode_filters K enc;
       off40 \<leftarrow> load64 packed 40;
       data_offsets \<leftarrow> load64 packed 72;
       if sint n \<le> sint nchunk then Some (- 10, None, g, [''filters''])
       else do {
         tbl \<leftarrow> mem_from packed (data_entry_pos data_offsets nchunk);
         entry \<leftarrow> load64 tbl 0;
         src \<leftarrow> mem_from packed (sint entry);
         nb \<leftarrow> load32 src 4;
         let dest = malloc_block junk (unat (scast nb :: 64 word));
         let (chunksize, dest') = blosc_decompress cd g src dest (scast nb);
         if sint chunksize < 0 then Some (chunksize, Some dest', g, [''filters''])
         else if chunksize \<noteq> nb then Some (- 11, Some dest', g, [''filters''])
         else do {
           f0 \<leftarrow> nth_opt dec 0;
           if f0 = BLOSC_DELTA K then
             do {
               ref \<leftarrow> mem_from packed (int (unat off40));
               Some (chunksize, Some (delta_decoder8 cd ref 0 nb dest'), g, [])
             }
           else Some (chunksize, Some dest', g, [])
         }
       }
     }"

section \<open>A concrete instance\<close>

text \<open>
  For the examples: constants with five filter slots, DELTA coded 3, a packed header of
  96 bytes and 16 bytes of chunk overhead; and a codec that stores the source behind a
  16-byte prefix, with the sizes at bytes 4 and 12, and fails when the destination is too
  small or, for \<open>picky_codec\<close>, when the compression level is not 0.
\<close>

definition std_consts :: blosc_consts where
  "std_consts = \<lparr> BLOSC_MAX_FILTERS = 5, BLOSC_DELTA = 3, BLOSC_HEADER_PACKED_LENGTH = 96,
                   BLOSC_MAX_OVERHEAD = 16, sizeof_schunk_header = 96 \<rparr>"

definition store_chunk :: "64 word \<Rightarrow> 64 word \<Rightarrow> bytes \<Rightarrow> bytes" where
  "store_chunk typesize n src =
     [2, 1, 2, ucast typesize] @ le_encode 4 n @ le_encode 4 n @ le_encode 4 (n + 16)
     @ take (unat n) src"

definition store_compress ::
  "unit \<Rightarrow> 32 word \<Rightarrow> 32 word \<Rightarrow> 64 word \<Rightarrow> 64 word \<Rightarrow> bytes \<Rightarrow> 64 word \<Rightarrow> 32 word \<times> bytes" where
  "store_compress g clevel' doshuffle typesize n src destsize =
     (if unat destsize < unat n + 16 \<or> length src < unat n then (- 1, [])
      else (ucast (n + 16), store_chunk typesize n src))"

definition store_decompress :: "unit \<Rightarrow> bytes \<Rightarrow> bytes \<Rightarrow> 64 word \<Rightarrow> 32 word \<times> bytes" where
  "store_decompress g src dest destsize =
     (case load32 src 4 of
        None \<Rightarrow> (- 1, dest)
      | Some nb \<Rightarrow>
          if sint nb < 0 \<or> unat destsize < unat nb \<or> length src < 16 + unat nb then (- 1, dest)
          else (nb, take (unat nb) (drop 16 src) @ drop (unat nb) dest))"

definition store_codec :: "unit codec" where
  "store_codec =
     \<lparr> blosc_compress = store_compress, blosc_decompress = store_decompress,
       blosc_compcode_to_compname = (\<lambda>c. ''blosclz''),
       blosc_set_compressor = (\<lambda>name g. g), blosc_set_schunk = (\<lambda>sc g. g),
       delta_encoder8 = (\<lambda>ref offset n src dest. src),
       delta_decoder8 = (\<lambda>ref offset n dest. dest) \<rparr>"

definition picky_codec :: "unit codec" where
  "picky_codec =
     store_codec \<lparr> blosc_compress :=
       (\<lambda>g clevel' doshuffle typesize n src destsize.
          if clevel' = 0 then store_compress g clevel' doshuffle typesize n src destsize
          else (- 1, [])) \<rparr>"


text \<open>
  A DELTA configuration (slot 0 is DELTA, slot 1 is a shuffle) at level 5: the header
  that \<open>blosc2_new_schunk\<close> returns for it, the header after the buffer \<open>[7, 8, 9]\<close> has been
  appended with \<open>store_codec\<close>, and the packed image of the empty super-chunk.
\<close>

definition delta_params :: schunk_params where
  "delta_params = \<lparr> params_filters = [3, 1, 0, 0, 0], params_filters_meta = 0,
                     params_compressor = 1, params_clevel = 5 \<rparr>"

definition delta_sc0 :: schunk_header where
  "delta_sc0 = \<lparr> version = 0, compressor = 1, clevel = 5, filters = 11, filters_meta = 0,
                  nchunks = 0, nbytes = 0, cbytes = 96,
                  filters_chunk = NULL, codec_chunk = NULL, metadata_chunk = NULL,
                  userdata_chunk = NULL, data = None \<rparr>"

definition delta_sc1 :: schunk_header where
  "delta_sc1 = delta_sc0 \<lparr> nchunks := 1, nbytes := 3, cbytes := 142,
                            filters_chunk := Ptr (store_chunk 1 3 [7, 8, 9]),
                            data := Some [store_chunk 1 3 [7, 8, 9]] \<rparr>"

definition zero_junk :: "nat \<Rightarrow> byte" where
  "zero_junk i = 0"

definition delta_image0 :: bytes where
  "delta_image0 =
     [0, 0, 0, 0, 1, 0, 5, 0, 11, 0, 0, 0, 0, 0, 0, 0] @ le_encode 8 (0 :: 64 word)
     @ le_encode 8 (96 :: 64 word) @ le_encode 8 (96 :: 64 word) @ replicate 32 0
     @ le_encode 8 (96 :: 64 word) @ replicate 16 0"

text \<open>
  A configuration without DELTA (slot 0 is a shuffle): the header that
  \<open>blosc2_new_schunk\<close> returns for it and the header after \<open>[7, 8, 9]\<close> has been appended.
\<close>

definition shuffle_params :: schunk_params where
  "shuffle_params = \<lparr> params_filters = [1, 0, 0, 0, 0], params_filters_meta = 0,
                       params_compressor = 1, params_clevel = 5 \<rparr>"

definition shuffle_sc0 :: schunk_header where
  "shuffle_sc0 = \<lparr> version = 0, compressor = 1, clevel = 5, filters = 1, filters_meta = 0,
                    nchunks = 0, nbytes = 0, cbytes = 96,
                    filters_chunk = NULL, codec_chunk = NULL, metadata_chunk = NULL,
                    userdata_chunk = NULL, data = None \<rparr>"

definition shuffle_sc1 :: schunk_header where
  "shuffle_sc1 = shuffle_sc0 \<lparr> nchunks := 1, nbytes := 3, cbytes := 123,
                                data := Some [store_chunk 1 3 [7, 8, 9]] \<rparr>"

text \<open>
  The same configuration after the eight bytes \<open>96, 0, 0, 0, 0, 0, 0, 0\<close> have been
  appended, and its packed image: the chunk takes the bytes 96 to 119, the offsets table
  starts at 120, and the eight bytes before the table, the chunk's own data, spell the
  offset 96.
\<close>

definition echo_sc :: schunk_header where
  "echo_sc = shuffle_sc0 \<lparr> nchunks := 1, nbytes := 8, cbytes := 128,
                             data := Some [store_chunk 1 8 [96, 0, 0, 0, 0, 0, 0, 0]] \<rparr>"

definition echo_image :: bytes where
  "echo_image =
     [0, 0, 0, 0, 1, 0, 5, 0, 1, 0, 0, 0, 0, 0, 0, 0] @ le_encode 8 (1 :: 64 word)
     @ le_encode 8 (112 :: 64 word) @ le_encode 8 (128 :: 64 word) @ replicate 32 0
     @ le_encode 8 (120 :: 64 word) @ replicate 16 0
     @ store_chunk 1 8 [96, 0, 0, 0, 0, 0, 0, 0] @ le_encode 8 (96 :: 64 word)"

section \<open>The sums of the specification\<close>

text \<open>
  The sizes of a chunk as 64-bit values, and the sums that the specification's
  invariant for \<open>nbytes\<close> names: over the data chunks and over the ancillary chunks that
  are present.
\<close>

definition chunk_nbytes :: "bytes \<Rightarrow> 64 word" where
  "chunk_nbytes c = (case load32 c 4 of None \<Rightarrow> 0 | Some nb \<Rightarrow> scast nb)"

definition chunk_cbytes :: "bytes \<Rightarrow> 64 word" where
  "chunk_cbytes c = (case load32 c 12 of None \<Rightarrow> 0 | Some cb \<Rightarrow> scast cb)"

definition ptr_nbytes :: "chunk_ptr \<Rightarrow> 64 word" where
  "ptr_nbytes p = (case p of Ptr c \<Rightarrow> chunk_nbytes c | _ \<Rightarrow> 0)"

definition ptr_cbytes :: "chunk_ptr \<Rightarrow> 64 word" where
  "ptr_cbytes p = (case p of Ptr c \<Rightarrow> chunk_cbytes c | _ \<Rightarrow> 0)"

definition data_list :: "schunk_header \<Rightarrow> bytes list" where
  "data_list sc = (case data sc of None \<Rightarrow> [] | Some ds \<Rightarrow> ds)"

definition sum_data_nbytes :: "schunk_header \<Rightarrow> 64 word" where
  "sum_data_nbytes sc = sum_list (map chunk_nbytes (data_list sc))"

definition sum_data_cbytes :: "schunk_header \<Rightarrow> 64 word" where
  "sum_data_cbytes sc = sum_list (map chunk_cbytes (data_list sc))"

definition sum_ancillary_nbytes :: "schunk_header \<Rightarrow> 64 word" where
  "sum_ancillary_nbytes sc =
     ptr_nbytes (filters_chunk sc) + ptr_nbytes (codec_chunk sc)
     + ptr_nbytes (metadata_chunk sc) + ptr_nbytes (userdata_chunk sc)"

definition sum_ancillary_cbytes :: "schunk_header \<Rightarrow> 64 word" where
  "sum_ancillary_cbytes sc =
     ptr_cbytes (filters_chunk sc) + ptr_cbytes (codec_chunk sc)
     + ptr_cbytes (metadata_chunk sc) + ptr_cbytes (userdata_chunk sc)"


section \<open>Well-formed chunks and super-chunks\<close>

text \<open>
  A buffer holds a well-formed chunk when the \<open>cbytes\<close> field of its prefix covers the
  prefix and stays inside the buffer. The chunk proper is then the first \<open>cbytes\<close> bytes.
\<close>

definition chunk_len :: "bytes \<Rightarrow> nat" where
  "chunk_len c = (case load32 c 12 of None \<Rightarrow> 0 | Some cb \<Rightarrow> nat (sint cb))"

definition chunk_ok :: "bytes \<Rightarrow> bool" where
  "chunk_ok c = (case load32 c 12 of None \<Rightarrow> False
                 | Some cb \<Rightarrow> 16 \<le> sint cb \<and> nat (sint cb) \<le> length c)"

definition chunk_bytes :: "bytes \<Rightarrow> bytes" where
  "chunk_bytes c = take (chunk_len c) c"

definition ptr_ok :: "chunk_ptr \<Rightarrow> bool" where
  "ptr_ok p = (case p of NULL \<Rightarrow> True | Ptr c \<Rightarrow> chunk_ok c | Dangling \<Rightarrow> False)"

definition ptr_len :: "chunk_ptr \<Rightarrow> nat" where
  "ptr_len p = (case p of Ptr c \<Rightarrow> chunk_len c | _ \<Rightarrow> 0)"

definition ptr_chunk :: "chunk_ptr \<Rightarrow> chunk_ptr" where
  "ptr_chunk p = (case p of Ptr c \<Rightarrow> Ptr (chunk_bytes c) | NULL \<Rightarrow> NULL | Dangling \<Rightarrow> Dangling)"

text \<open>
  The end of the ancillary chunks in the image, the position of data chunk \<open>i\<close>, and the
  size of the whole image, as natural numbers.
\<close>

definition anc_end :: "blosc_consts \<Rightarrow> schunk_header \<Rightarrow> nat" where
  "anc_end K sc =
     unat (BLOSC_HEADER_PACKED_LENGTH K) + ptr_len (filters_chunk sc) + ptr_len (codec_chunk sc)
     + ptr_len (metadata_chunk sc) + ptr_len (userdata_chunk sc)"

definition data_pos :: "nat \<Rightarrow> bytes list \<Rightarrow> nat \<Rightarrow> nat" where
  "data_pos a ds i = a + sum_list (map chunk_len (take i ds))"

definition packed_size :: "blosc_consts \<Rightarrow> schunk_header \<Rightarrow> nat" where
  "packed_size K sc =
     anc_end K sc + sum_list (map chunk_len (data_list sc)) + 8 * length (data_list sc)"

text \<open>
  A well-formed live super-chunk: every chunk it holds is well formed, \<open>nchunks\<close> counts
  the vector, the count fits the \<open>int\<close> loop counters, the packed header has room for its
  fields (the last one ends at byte 80), and the image fits a signed 64-bit size.
\<close>

definition wf_schunk :: "blosc_consts \<Rightarrow> schunk_header \<Rightarrow> bool" where
  "wf_schunk K sc \<longleftrightarrow>
     ptr_ok (filters_chunk sc) \<and> ptr_ok (codec_chunk sc)
     \<and> ptr_ok (metadata_chunk sc) \<and> ptr_ok (userdata_chunk sc)
     \<and> list_all chunk_ok (data_list sc)
     \<and> nchunks sc = of_nat (length (data_list sc))
     \<and> length (data_list sc) \<le> 2147483647
     \<and> 80 \<le> unat (BLOSC_HEADER_PACKED_LENGTH K)
     \<and> packed_size K sc < 2 ^ 63"

text \<open>
  The layout of the image of a super-chunk, as the format section of the specification
  gives it: the first 16 bytes of the header, the three counters at bytes 16, 24 and 32,
  the offsets of the four ancillary chunks at bytes 40 to 71 (0 for an absent chunk) with
  each present chunk at its offset, the position of the offsets table at byte 72, and for
  every data chunk its entry in the table and its bytes at that entry.
\<close>

definition anc_at :: "bytes \<Rightarrow> nat \<Rightarrow> chunk_ptr \<Rightarrow> nat \<Rightarrow> bool" where
  "anc_at img off p pos =
     (case p of
        NULL \<Rightarrow> load64 img off = Some 0
      | Ptr c \<Rightarrow> load64 img off = Some (of_nat pos)
                 \<and> load_bytes img pos (chunk_len c) = Some (chunk_bytes c)
      | Dangling \<Rightarrow> False)"

definition image_layout :: "blosc_consts \<Rightarrow> schunk_header \<Rightarrow> bytes \<Rightarrow> bool" where
  "image_layout K sc img \<longleftrightarrow>
     length img = packed_size K sc
     \<and> load_bytes img 0 16 = Some (take 16 (header_prefix sc))
     \<and> load64 img 16 = Some (nchunks sc)
     \<and> load64 img 24 = Some (BLOSC_HEADER_PACKED_LENGTH K + sum_ancillary_nbytes sc
                              + sum_data_nbytes sc + nchunks sc * 8)
     \<and> load64 img 32 = Some (of_nat (packed_size K sc))
     \<and> anc_at img 40 (filters_chunk sc) (unat (BLOSC_HEADER_PACKED_LENGTH K))
     \<and> anc_at img 48 (codec_chunk sc)
          (unat (BLOSC_HEADER_PACKED_LENGTH K) + ptr_len (filters_chunk sc))
     \<and> anc_at img 56 (metadata_chunk sc)
          (unat (BLOSC_HEADER_PACKED_LENGTH K) + ptr_len (filters_chunk sc)
           + ptr_len (codec_chunk sc))
     \<and> anc_at img 64 (userdata_chunk sc)
          (unat (BLOSC_HEADER_PACKED_LENGTH K) + ptr_len (filters_chunk sc)
           + ptr_len (codec_chunk sc) + ptr_len (metadata_chunk sc))
     \<and> load64 img 72
         = Some (of_nat (data_pos (anc_end K sc) (data_list sc) (length (data_list sc))))
     \<and> (\<forall>j<length (data_list sc).
           load64 img (data_pos (anc_end K sc) (data_list sc) (length (data_list sc)) + 8 * j)
             = Some (of_nat (data_pos (anc_end K sc) (data_list sc) j))
           \<and> load_bytes img (data_pos (anc_end K sc) (data_list sc) j)
                 (chunk_len (data_list sc ! j))
               = Some (chunk_bytes (data_list sc ! j)))"

text \<open>The second image changes the first at most at the positions in \<open>W\<close>.\<close>

definition writes_only :: "nat set \<Rightarrow> bytes \<Rightarrow> bytes \<Rightarrow> bool" where
  "writes_only W m m' \<longleftrightarrow> length m' = length m \<and> (\<forall>i<length m. i \<notin> W \<longrightarrow> m' ! i = m ! i)"

text \<open>
  An image of one chunk, made by appending the two-byte buffer \<open>[5, 6]\<close> to the empty
  DELTA image.
\<close>

definition delta_image1 :: bytes where
  "delta_image1 =
     [0, 0, 0, 0, 1, 0, 5, 0, 11, 0, 0, 0, 0, 0, 0, 0] @ le_encode 8 (1 :: 64 word)
     @ le_encode 8 (106 :: 64 word) @ le_encode 8 (122 :: 64 word) @ replicate 32 0
     @ le_encode 8 (114 :: 64 word) @ replicate 16 0 @ store_chunk 1 2 [5, 6]
     @ le_encode 8 (96 :: 64 word)"

section \<open>Sequences of appends\<close>

text \<open>
  The super-chunks reached from a new one: \<open>run_appends\<close> applies a list of append
  operations, each an \<open>append_chunk\<close> or an \<open>append_buffer\<close> (with the global state found
  at the call), and stops at undefined behaviour. An operation is in order when the chunk
  it copies is well formed. \<open>live_inv\<close> is what the live form keeps: \<open>nbytes\<close> is the total
  of the data chunks, and \<open>nchunks\<close> counts them.
\<close>

datatype 'g append_op = Append_chunk bytes bool | Append_buffer 'g "64 word" "64 word" bytes

fun run_appends ::
  "blosc_consts \<Rightarrow> 'g codec \<Rightarrow> schunk_header \<Rightarrow> 'g append_op list \<Rightarrow> schunk_header option" where
  "run_appends K cd sc [] = Some sc"
| "run_appends K cd sc (Append_chunk chunk copy # ops) =
     do { (r, sc') \<leftarrow> blosc2_append_chunk sc chunk copy; run_appends K cd sc' ops }"
| "run_appends K cd sc (Append_buffer g typesize n src # ops) =
     do { (r, sc', g', lk) \<leftarrow> blosc2_append_buffer K cd g sc typesize n src;
          run_appends K cd sc' ops }"

definition op_ok :: "'g append_op \<Rightarrow> bool" where
  "op_ok op = (case op of Append_chunk chunk copy \<Rightarrow> (if copy then chunk_ok chunk else True)
               | Append_buffer g typesize n src \<Rightarrow> True)"

definition live_inv :: "schunk_header \<Rightarrow> bool" where
  "live_inv sc \<longleftrightarrow> nbytes sc = sum_data_nbytes sc \<and> unat (nchunks sc) = length (data_list sc)"

section \<open>The filter descriptor at a code above 3\<close>

text \<open>
  Claim C2: for every array of \<open>MAX_FILTERS\<close> filter codes in \<open>0..7\<close>, decoding the word
  produced by \<open>encode_filters\<close> returns the array. The encoder gives each slot three
  bits, and the decoder, whose comment says \<open>3-bit encoded\<close>, masks with \<open>0x3\<close>: the code 4
  in slot 0 is encoded as the word 4 and decoded as 0.
\<close>

theorem C2_decode_filters_drops_bit_2:
  "encode_filters std_consts \<lparr> params_filters = [4, 0, 0, 0, 0], params_filters_meta = 0,
       params_compressor = 1, params_clevel = 5 \<rparr> = Some 4
   \<and> decode_filters std_consts 4 = [0, 0, 0, 0, 0]"
  by code_simp

section \<open>Replacing the DELTA reference\<close>

text \<open>
  Claim C3: \<open>set_delta_ref\<close> on a super-chunk that already holds a reference decrements
  \<open>cbytes\<close> by the old reference's \<open>cbytes\<close> (prefix offset 12) and adds the new chunk's
  \<open>cbytes\<close>. The source subtracts the 32-bit value at offset 4 of the old reference, its
  \<open>nbytes\<close>: with an old reference of 3 bytes stored in 19 and a new one stored in 18, the
  total goes from 142 to \<open>142 - 3 + 18\<close> and not to \<open>142 - 19 + 18\<close>.
\<close>

theorem C3_set_delta_ref_subtracts_nbytes:
  "filters_chunk delta_sc1 = Ptr (store_chunk 1 3 [7, 8, 9])
   \<and> load32 (store_chunk 1 3 [7, 8, 9]) 4 = Some 3
   \<and> load32 (store_chunk 1 3 [7, 8, 9]) 12 = Some 19
   \<and> cbytes delta_sc1 = 142
   \<and> blosc2_set_delta_ref std_consts store_codec () delta_sc1 2 [5, 6]
       = Some (18, delta_sc1 \<lparr> filters_chunk := Ptr (store_chunk 1 2 [5, 6]),
                                cbytes := 142 - 3 + 18 \<rparr>, [])"
  by code_simp

text \<open>
  In general: with a reference installed and a codec call that succeeds, the total
  loses the 32-bit value at offset 4 of the old reference and gains the new \<open>cbytes\<close>.
\<close>

lemma set_delta_ref_replaces:
  assumes "nth_opt (decode_filters K (filters sc)) 0 = Some (BLOSC_DELTA K)"
    and "filters_chunk sc = Ptr old" and "load32 old 4 = Some v"
    and "blosc_compress cd g 0 0 1 n ref (n + BLOSC_MAX_OVERHEAD K) = (cb, buf)"
    and "0 \<le> sint cb"
  shows "blosc2_set_delta_ref K cd g sc n ref
     = Some (cb, sc \<lparr> cbytes := cbytes sc - ucast v + scast cb, filters_chunk := Ptr buf \<rparr>, [])"
  using assms by (simp add: blosc2_set_delta_ref_def)

section \<open>Appending to a packed image that has no reference\<close>

text \<open>
  Claim C4: on a packed image whose filter slot 0 is DELTA and whose \<open>filters_chunk\<close>
  offset (byte 40) is 0, \<open>packed_append_buffer\<close> returns null and leaves the image as it
  is. The source tests the pointer \<open>packed + offset\<close> against \<open>NULL\<close>, which an offset of 0
  does not make null: on the packed image of the empty DELTA super-chunk the call goes on,
  compresses the buffer and returns the image with the chunk appended.
\<close>

theorem C4_packed_append_buffer_without_reference:
  "blosc2_pack_schunk std_consts zero_junk delta_sc0 = Some delta_image0
   \<and> map_option (\<lambda>w. decode_filters std_consts w ! 0) (load16 delta_image0 8)
       = Some (BLOSC_DELTA std_consts)
   \<and> load64 delta_image0 40 = Some 0
   \<and> blosc2_packed_append_buffer std_consts store_codec zero_junk () 4096 delta_image0 1 2 [5, 6]
       = Some (blosc2_packed_append_chunk zero_junk delta_image0 (store_chunk 1 2 [5, 6]), (), [])
   \<and> blosc2_packed_append_chunk zero_junk delta_image0 (store_chunk 1 2 [5, 6]) \<noteq> None"
  by code_simp

text \<open>
  In general: for an image at an address that is not null, an offset field of 0 never
  leads to the return of line 460, whatever the codec does.
\<close>

lemma packed_append_buffer_guard:
  assumes "load64 packed 40 = Some 0" and "addr \<noteq> 0"
  shows "blosc2_packed_append_buffer K cd junk g addr packed typesize n src
           \<noteq> Some (None, g', [''filters'', ''chunk'', ''dest''])"
  using assms
  by (auto simp: blosc2_packed_append_buffer_def packed_append_compress_def Let_def
           split: bind_splits if_splits prod.splits)

section \<open>The uncompressed total under DELTA\<close>

text \<open>
  Claim C5, as stated: for a super-chunk reached by \<open>new\<close> and appends, \<open>nbytes\<close> is the
  sum of \<open>nbytes\<close> over the data chunks plus the sum over the ancillary chunks stored, the
  DELTA reference among them. It fails under DELTA: after the first append of three bytes
  the data chunks sum to 3 and the reference to 3, and \<open>nbytes\<close> is 3. In the live form
  \<open>nbytes\<close> starts at 0, \<open>append_chunk\<close> adds the chunk's \<open>nbytes\<close>, and \<open>set_delta_ref\<close>
  adds the reference to \<open>cbytes\<close> only.
\<close>

theorem C5_nbytes_omits_delta_reference:
  "blosc2_new_schunk std_consts delta_params = Some delta_sc0
   \<and> blosc2_append_buffer std_consts store_codec () delta_sc0 1 3 [7, 8, 9]
       = Some (1, delta_sc1, (), [])
   \<and> nbytes delta_sc1 = 3
   \<and> sum_data_nbytes delta_sc1 = 3
   \<and> sum_ancillary_nbytes delta_sc1 = 3"
  by code_simp


section \<open>A codec failure in append_buffer\<close>

lemma length_decode_loop [simp]: "length (decode_loop n w) = n"
  by (induction n arbitrary: w) auto

text \<open>
  Claim C6, as stated: when the compress call of \<open>append_buffer\<close> returns a negative code,
  no field of the super-chunk is updated, also on the DELTA first-append path. It fails
  there: \<open>set_delta_ref\<close> has installed the reference and added its size to \<open>cbytes\<close>
  before the call, and nothing takes that back. With a codec that stores at level 0 and
  fails at any other level, the first append to the empty DELTA super-chunk returns the
  code \<open>-1\<close> and leaves a reference installed and \<open>cbytes\<close> at 115 instead of 96.
\<close>

theorem C6_first_append_keeps_reference:
  "sint (fst (blosc_compress picky_codec () 5 1 1 3 [7, 8, 9] 19)) < 0
   \<and> blosc2_append_buffer std_consts picky_codec () delta_sc0 1 3 [7, 8, 9]
       = Some (- 1, delta_sc0 \<lparr> filters_chunk := Ptr (store_chunk 1 3 [7, 8, 9]),
                                 cbytes := 115 \<rparr>, (), [])
   \<and> filters_chunk delta_sc0 = NULL \<and> cbytes delta_sc0 = 96"
  by code_simp

text \<open>
  Claim C6, amended: when the compress call of \<open>append_buffer\<close> (line 169) returns a
  negative code, the destination buffer is freed (no buffer is left allocated), the code
  is returned, sign-extended to \<open>size_t\<close>, and no field of the super-chunk is updated,
  except on the DELTA first-append path (slot 0 is DELTA and no reference is installed),
  where \<open>filters_chunk\<close> holds the reference that \<open>set_delta_ref\<close> has just compressed and
  \<open>cbytes\<close> has grown by its size. \<open>first\<close> names that path, \<open>ref_call\<close> the compress call of
  \<open>set_delta_ref\<close>, \<open>sc1\<close> the header and \<open>g2\<close> the global state at the failing call \<open>r\<close>.
\<close>

theorem C6_append_buffer_codec_failure:
  assumes mf: "2 \<le> BLOSC_MAX_FILTERS K"
    and f0: "f0 = decode_filters K (filters sc) ! 0"
    and f1: "f1 = decode_filters K (filters sc) ! 1"
    and first: "first \<longleftrightarrow> f0 = BLOSC_DELTA K \<and> filters_chunk sc = NULL"
    and rc: "ref_call = blosc_compress cd g 0 0 1 n src (n + BLOSC_MAX_OVERHEAD K)"
    and ref_ok: "first \<longrightarrow> 0 \<le> sint (fst ref_call)"
    and sc1: "sc1 = (if first then sc \<lparr> filters_chunk := Ptr (snd ref_call),
                                         cbytes := cbytes sc + scast (fst ref_call) \<rparr> else sc)"
    and g2: "g2 = blosc_set_schunk cd sc1
               (blosc_set_compressor cd (blosc_compcode_to_compname cd (ucast (compressor sc))) g)"
    and r: "r = blosc_compress cd g2 (ucast (clevel sc)) (ucast (if f0 = BLOSC_DELTA K then f1 else f0))
                  typesize n src (n + BLOSC_MAX_OVERHEAD K)"
    and fail: "sint (fst r) < 0"
  shows "blosc2_append_buffer K cd g sc typesize n src = Some (scast (fst r), sc1, g2, [])"
proof -
  have n0: "nth_opt (decode_filters K (filters sc)) 0 = Some f0"
    and n1: "nth_opt (decode_filters K (filters sc)) 1 = Some f1"
    using mf f0 f1 by (simp_all add: nth_opt_def decode_filters_def)
  show ?thesis
  proof (cases first)
    case True
    then have d: "f0 = BLOSC_DELTA K" and nl: "filters_chunk sc = NULL" using first by auto
    obtain cb0 buf where rc': "blosc_compress cd g 0 0 1 n src (n + BLOSC_MAX_OVERHEAD K) = (cb0, buf)"
      by (cases "blosc_compress cd g 0 0 1 n src (n + BLOSC_MAX_OVERHEAD K)")
    have ok: "\<not> sint cb0 < 0" using ref_ok True rc rc' by simp
    have sdr: "blosc2_set_delta_ref K cd g sc n src = Some (cb0, sc1, [])"
      using n0 d nl rc' ok sc1 True rc by (simp add: blosc2_set_delta_ref_def)
    have cmp: "compressor sc1 = compressor sc" "clevel sc1 = clevel sc"
      using sc1 by (simp_all split: if_splits)
    obtain cb chunk where r': "r = (cb, chunk)" by (cases r)
    have eq: "blosc_compress cd (blosc_set_schunk cd sc1
               (blosc_set_compressor cd (blosc_compcode_to_compname cd (ucast (compressor sc))) g))
               (ucast (clevel sc)) (ucast f1) typesize n src (n + BLOSC_MAX_OVERHEAD K) = (cb, chunk)"
      using r r' g2 d by simp
    have neg: "sint cb < 0" using fail r' by simp
    have abc: "append_buffer_compress K cd g sc1 (ucast f1) typesize n src = Some (scast cb, sc1, g2, [])"
      using eq neg g2 by (simp add: append_buffer_compress_def cmp)
    show ?thesis
      using n0 n1 d nl sdr ok abc r' by (simp add: blosc2_append_buffer_def)
  next
    case False
    then have s: "sc1 = sc" using sc1 by simp
    obtain cb chunk where r': "r = (cb, chunk)" by (cases r)
    have eq: "blosc_compress cd (blosc_set_schunk cd sc
               (blosc_set_compressor cd (blosc_compcode_to_compname cd (ucast (compressor sc))) g))
               (ucast (clevel sc)) (ucast (if f0 = BLOSC_DELTA K then f1 else f0)) typesize n src
               (n + BLOSC_MAX_OVERHEAD K) = (cb, chunk)"
      using r r' g2 s by simp
    have neg: "sint cb < 0" using fail r' by simp
    have abc: "append_buffer_compress K cd g sc (ucast (if f0 = BLOSC_DELTA K then f1 else f0)) typesize n src
                 = Some (scast cb, sc, g2, [])"
      using eq neg g2 s by (simp add: append_buffer_compress_def)
    show ?thesis
    proof (cases "f0 = BLOSC_DELTA K")
      case True
      then have "filters_chunk sc \<noteq> NULL" using False first by simp
      then show ?thesis using n0 n1 True abc r' s
        by (cases "filters_chunk sc") (simp_all add: blosc2_append_buffer_def)
    next
      case False
      then show ?thesis using n0 abc r' s by (simp add: blosc2_append_buffer_def)
    qed
  qed
qed

theorem C6_append_buffer_codec_failure_witness:
  "blosc2_append_buffer std_consts picky_codec () delta_sc1 1 2 [5, 6]
     = Some (- 1, delta_sc1, (), [])"
proof -
  have mf: "2 \<le> BLOSC_MAX_FILTERS std_consts" by (simp add: std_consts_def)
  have f0: "(3 :: byte) = decode_filters std_consts (filters delta_sc1) ! 0" by code_simp
  have f1: "(1 :: byte) = decode_filters std_consts (filters delta_sc1) ! 1" by code_simp
  have first: "False \<longleftrightarrow> (3 :: byte) = BLOSC_DELTA std_consts \<and> filters_chunk delta_sc1 = NULL"
    by code_simp
  have ref_ok: "False \<longrightarrow> 0 \<le> sint (fst (blosc_compress picky_codec () 0 0 1 2 [5, 6]
                                           (2 + BLOSC_MAX_OVERHEAD std_consts)))"
    by simp
  have sc1: "delta_sc1 = (if False then delta_sc1 \<lparr> filters_chunk :=
                   Ptr (snd (blosc_compress picky_codec () 0 0 1 2 [5, 6]
                               (2 + BLOSC_MAX_OVERHEAD std_consts))),
                 cbytes := cbytes delta_sc1 + scast (fst (blosc_compress picky_codec () 0 0 1 2 [5, 6]
                               (2 + BLOSC_MAX_OVERHEAD std_consts))) \<rparr> else delta_sc1)"
    by simp
  have g2: "() = blosc_set_schunk picky_codec delta_sc1
               (blosc_set_compressor picky_codec
                  (blosc_compcode_to_compname picky_codec (ucast (compressor delta_sc1))) ())"
    by simp
  have r: "(- 1, []) = blosc_compress picky_codec () (ucast (clevel delta_sc1))
             (ucast (if (3 :: byte) = BLOSC_DELTA std_consts then (1 :: byte) else 3)) 1 2 [5, 6]
             (2 + BLOSC_MAX_OVERHEAD std_consts)"
    by code_simp
  have fail: "sint (fst (- 1 :: 32 word, [] :: bytes)) < 0" by simp
  from C6_append_buffer_codec_failure [OF mf f0 f1 first refl ref_ok sc1 g2 r fail]
  show ?thesis by simp
qed

section \<open>The error returns of decompress_chunk\<close>

text \<open>
  Claim C7: if the index is at or beyond \<open>nchunks\<close>, \<open>decompress_chunk\<close> returns \<open>-10\<close>;
  otherwise, if the capacity is below the \<open>nbytes\<close> read from the prefix of the chunk at
  that index, it returns \<open>-11\<close>; in both cases the super-chunk and the destination buffer
  are as before (and so is the global state).
\<close>

theorem C7_decompress_chunk_errors:
  "(sint (nchunks sc) \<le> sint nchunk \<longrightarrow>
      blosc2_decompress_chunk K cd g sc nchunk dest cap = Some (- 10, dest, g, sc))
   \<and> (sint nchunk < sint (nchunks sc) \<and> data_at (data sc) (sint nchunk) = Some c
        \<and> load32 c 4 = Some nb \<and> sint cap < sint nb \<longrightarrow>
      blosc2_decompress_chunk K cd g sc nchunk dest cap = Some (- 11, dest, g, sc))"
  by (simp add: blosc2_decompress_chunk_def)

theorem C7_decompress_chunk_errors_witness:
  "blosc2_decompress_chunk std_consts store_codec () delta_sc1 1 [1, 2, 3] 3
     = Some (- 10, [1, 2, 3], (), delta_sc1)
   \<and> blosc2_decompress_chunk std_consts store_codec () delta_sc1 0 [1, 2] 2
     = Some (- 11, [1, 2], (), delta_sc1)"
proof -
  have a: "sint (nchunks delta_sc1) \<le> sint (1 :: 64 word)"
    by (simp add: delta_sc1_def)
  have b: "sint (0 :: 64 word) < sint (nchunks delta_sc1)
           \<and> data_at (data delta_sc1) (sint (0 :: 64 word)) = Some (store_chunk 1 3 [7, 8, 9])
           \<and> load32 (store_chunk 1 3 [7, 8, 9]) 4 = Some 3 \<and> sint (2 :: 32 word) < sint (3 :: 32 word)"
    by code_simp
  show ?thesis
    by (intro conjI)
       (rule C7_decompress_chunk_errors [THEN conjunct1, rule_format, OF a],
        rule C7_decompress_chunk_errors [THEN conjunct2, rule_format, OF b])
qed

section \<open>Negative chunk indices\<close>

text \<open>
  Claim C10: the guard of \<open>decompress_chunk\<close> and of \<open>packed_decompress_chunk\<close> tests the
  upper bound only. For a negative index and a count that is not negative it does not
  fire. The live function goes on to read \<open>data[nchunk]\<close> outside the vector, which is
  undefined (\<open>None\<close>). The packed function goes on past the guard: it reads the 64-bit
  entry at \<open>offset + 8 * nchunk\<close>, which lies before the offsets table, takes it for the
  offset of a chunk and decompresses what it finds there. Whenever it returns it has
  stored a buffer in \<open>*dest\<close>, which the return of the guard never does, and it returns
  \<open>-10\<close> only if the codec itself does.
\<close>

theorem C10_negative_index_passes_guard:
  assumes "sint nchunk < 0" and "0 \<le> sint (nchunks sc)"
    and "sint nchunk32 < 0" and "load64 packed 16 = Some n" and "0 \<le> sint n"
    and "load16 packed 8 = Some enc" and "load64 packed 40 = Some off40"
    and "load64 packed 72 = Some data_offsets"
  shows "blosc2_decompress_chunk K cd g sc nchunk dest cap = None
    \<and> data_entry_pos data_offsets nchunk32 < sint data_offsets
    \<and> blosc2_packed_decompress_chunk K cd junk g packed nchunk32 =
        do {
          tbl \<leftarrow> mem_from packed (data_entry_pos data_offsets nchunk32);
          entry \<leftarrow> load64 tbl 0;
          src \<leftarrow> mem_from packed (sint entry);
          nb \<leftarrow> load32 src 4;
          let (chunksize, dest') =
                blosc_decompress cd g src (malloc_block junk (unat (scast nb :: 64 word))) (scast nb);
          if sint chunksize < 0 then Some (chunksize, Some dest', g, [''filters''])
          else if chunksize \<noteq> nb then Some (- 11, Some dest', g, [''filters''])
          else do {
            f0 \<leftarrow> nth_opt (decode_filters K enc) 0;
            if f0 = BLOSC_DELTA K then
              do {
                ref \<leftarrow> mem_from packed (int (unat off40));
                Some (chunksize, Some (delta_decoder8 cd ref 0 nb dest'), g, [])
              }
            else Some (chunksize, Some dest', g, [])
          }
        }
    \<and> (\<forall>r. blosc2_packed_decompress_chunk K cd junk g packed nchunk32 = Some r \<longrightarrow>
          fst (snd r) \<noteq> None
          \<and> (fst r = - 10 \<longrightarrow> (\<exists>s d z. fst (blosc_decompress cd g s d z) = - 10)))"
proof -
  have live: "blosc2_decompress_chunk K cd g sc nchunk dest cap = None"
    using assms(1,2) by (simp add: blosc2_decompress_chunk_def data_at_def split: option.splits)
  have pos: "data_entry_pos data_offsets nchunk32 < sint data_offsets"
    using assms(3) by (simp add: data_entry_pos_def)
  have guard: "\<not> sint n \<le> sint nchunk32" using assms(3,5) by simp
  have eq: "blosc2_packed_decompress_chunk K cd junk g packed nchunk32 =
        do {
          tbl \<leftarrow> mem_from packed (data_entry_pos data_offsets nchunk32);
          entry \<leftarrow> load64 tbl 0;
          src \<leftarrow> mem_from packed (sint entry);
          nb \<leftarrow> load32 src 4;
          let (chunksize, dest') =
                blosc_decompress cd g src (malloc_block junk (unat (scast nb :: 64 word))) (scast nb);
          if sint chunksize < 0 then Some (chunksize, Some dest', g, [''filters''])
          else if chunksize \<noteq> nb then Some (- 11, Some dest', g, [''filters''])
          else do {
            f0 \<leftarrow> nth_opt (decode_filters K enc) 0;
            if f0 = BLOSC_DELTA K then
              do {
                ref \<leftarrow> mem_from packed (int (unat off40));
                Some (chunksize, Some (delta_decoder8 cd ref 0 nb dest'), g, [])
              }
            else Some (chunksize, Some dest', g, [])
          }
        }"
    using guard assms(4,6,7,8) by (simp add: blosc2_packed_decompress_chunk_def Let_def)
  have ret: "fst (snd r) \<noteq> None \<and> (fst r = - 10 \<longrightarrow> (\<exists>s d z. fst (blosc_decompress cd g s d z) = - 10))"
    if "blosc2_packed_decompress_chunk K cd junk g packed nchunk32 = Some r" for r
    using that unfolding eq
    apply (auto split: bind_splits if_splits prod.splits simp: Let_def)
    apply (metis fst_conv)+
    done
  show ?thesis using live pos eq ret by blast
qed

theorem C10_negative_index_passes_guard_witness:
  "blosc2_decompress_chunk std_consts store_codec () echo_sc (- 1) [0, 0, 0, 0, 0, 0, 0, 0] 8 = None
   \<and> data_entry_pos 120 (- 1) < sint (120 :: 64 word)
   \<and> blosc2_packed_decompress_chunk std_consts store_codec zero_junk () echo_image (- 1)
       = Some (8, Some [96, 0, 0, 0, 0, 0, 0, 0], (), [])
   \<and> blosc2_packed_decompress_chunk std_consts store_codec zero_junk () echo_image 0
       = Some (8, Some [96, 0, 0, 0, 0, 0, 0, 0], (), [])
   \<and> blosc2_packed_decompress_chunk std_consts store_codec zero_junk () echo_image 1
       = Some (- 10, None, (), [''filters''])
   \<and> blosc2_new_schunk std_consts shuffle_params = Some shuffle_sc0
   \<and> run_appends std_consts store_codec shuffle_sc0
         [Append_buffer () 1 8 [96, 0, 0, 0, 0, 0, 0, 0]] = Some echo_sc
   \<and> blosc2_pack_schunk std_consts zero_junk echo_sc = Some echo_image"
proof -
  have a: "sint (- 1 :: 64 word) < 0" by simp
  have b: "0 \<le> sint (nchunks echo_sc)" by (simp add: echo_sc_def)
  have c: "sint (- 1 :: 32 word) < 0" by simp
  have d: "load64 echo_image 16 = Some 1" by code_simp
  have e: "0 \<le> sint (1 :: 64 word)" by simp
  have f: "load16 echo_image 8 = Some 1" by code_simp
  have h: "load64 echo_image 40 = Some 0" by code_simp
  have i: "load64 echo_image 72 = Some 120" by code_simp
  note t = C10_negative_index_passes_guard [OF a b c d e f h i,
      where K = std_consts and cd = store_codec and g = "()"
        and dest = "[0, 0, 0, 0, 0, 0, 0, 0]" and cap = 8 and junk = zero_junk]
  have p: "blosc2_packed_decompress_chunk std_consts store_codec zero_junk () echo_image (- 1)
       = Some (8, Some [96, 0, 0, 0, 0, 0, 0, 0], (), [])"
    unfolding t [THEN conjunct2, THEN conjunct2, THEN conjunct1] by code_simp
  have p0: "blosc2_packed_decompress_chunk std_consts store_codec zero_junk () echo_image 0
       = Some (8, Some [96, 0, 0, 0, 0, 0, 0, 0], (), [])"
    by code_simp
  have p1: "blosc2_packed_decompress_chunk std_consts store_codec zero_junk () echo_image 1
       = Some (- 10, None, (), [''filters''])"
    by code_simp
  have r0: "blosc2_new_schunk std_consts shuffle_params = Some shuffle_sc0" by code_simp
  have r1: "run_appends std_consts store_codec shuffle_sc0
         [Append_buffer () 1 8 [96, 0, 0, 0, 0, 0, 0, 0]] = Some echo_sc"
    by code_simp
  have r2: "blosc2_pack_schunk std_consts zero_junk echo_sc = Some echo_image" by code_simp
  show ?thesis
    using t [THEN conjunct1] t [THEN conjunct2, THEN conjunct1] p p0 p1 r0 r1 r2
    by (intro conjI)
qed


section \<open>Lemmas: little-endian fields, loads and stores\<close>

lemma length_le_encode [simp]: "length (le_encode n w) = n"
  by (induction n arbitrary: w) auto

lemma le_decode_le_encode:
  "(le_decode (le_encode n (w :: 'a::len word)) :: 'a word) = take_bit (8 * n) w"
proof (induction n arbitrary: w)
  case 0
  then show ?case by simp
next
  case (Suc n)
  show ?case
    apply (simp add: Suc)
    apply (rule bit_eqI)
    apply (auto simp add: bit_simps)
    done
qed

lemma le_decode_le_encode_64 [simp]: "le_decode (le_encode 8 (w :: 64 word)) = w"
  by (simp add: le_decode_le_encode take_bit_word_eq_self)

lemma le_decode_le_encode_32 [simp]: "le_decode (le_encode 4 (w :: 32 word)) = w"
  by (simp add: le_decode_le_encode take_bit_word_eq_self)

lemma le_decode_le_encode_16 [simp]: "le_decode (le_encode 2 (w :: 16 word)) = w"
  by (simp add: le_decode_le_encode take_bit_word_eq_self)

lemma scast_nonneg_of_nat:
  assumes "0 \<le> sint (c :: 32 word)"
  shows "(scast c :: 64 word) = of_nat (nat (sint c))"
proof -
  have "(of_nat (nat (sint c)) :: 64 word) = of_int (int (nat (sint c)))"
    by (simp only: of_int_of_nat_eq)
  also have "\<dots> = of_int (sint c)" using assms by simp
  finally show ?thesis by (simp only: scast_eq)
qed

lemma sint32_bound: "nat (sint (c :: 32 word)) < 2 ^ 31"
  using sint_lt [of c] by simp

lemma unat_of_nat_64: "x < 2 ^ 64 \<Longrightarrow> unat (of_nat x :: 64 word) = x"
  by (simp add: unat_of_nat)

lemma unat_scast_nonneg:
  assumes "0 \<le> sint (c :: 32 word)"
  shows "unat (scast c :: 64 word) = nat (sint c)"
proof -
  have "(2 :: nat) ^ 31 < 2 ^ 64" by simp
  with sint32_bound [of c] have "nat (sint c) < 2 ^ 64" by (rule less_trans)
  then show ?thesis by (simp only: scast_nonneg_of_nat [OF assms] unat_of_nat_64)
qed

lemma load_bytes_Some_iff:
  "load_bytes m p n = Some bs \<longleftrightarrow>
     p + n \<le> length m \<and> length bs = n \<and> (\<forall>i<n. bs ! i = m ! (p + i))"
  by (auto simp: load_bytes_def list_eq_iff_nth_eq)

lemma store_bytes_length: "store_bytes m p bs = Some m' \<Longrightarrow> length m' = length m"
  by (auto simp: store_bytes_def split: if_splits)

lemma store_bytes_nth:
  "store_bytes m p bs = Some m' \<Longrightarrow> i < length m \<Longrightarrow>
     m' ! i = (if p \<le> i \<and> i < p + length bs then bs ! (i - p) else m ! i)"
  by (auto simp: store_bytes_def nth_append split: if_splits)

lemma load_store_same:
  "store_bytes m p bs = Some m' \<Longrightarrow> load_bytes m' p (length bs) = Some bs"
  by (auto simp: load_bytes_def store_bytes_def split: if_splits)

lemma load_store_other:
  assumes st: "store_bytes m p bs = Some m'" and d: "q + k \<le> p \<or> p + length bs \<le> q"
  shows "load_bytes m' q k = load_bytes m q k"
proof (cases "q + k \<le> length m")
  case True
  have len: "length m' = length m" by (rule store_bytes_length [OF st])
  have "take k (drop q m') = take k (drop q m)"
  proof (rule nth_equalityI)
    show "length (take k (drop q m')) = length (take k (drop q m))" by (simp add: len)
  next
    fix i assume "i < length (take k (drop q m'))"
    then have ik: "i < k" by simp
    then have "q + i < length m" using True by simp
    from store_bytes_nth [OF st this] d ik have "m' ! (q + i) = m ! (q + i)" by auto
    then show "take k (drop q m') ! i = take k (drop q m) ! i"
      using ik True len by simp
  qed
  then show ?thesis using True len by (simp add: load_bytes_def)
next
  case False
  then show ?thesis using store_bytes_length [OF st] by (simp add: load_bytes_def)
qed

lemma length_realloc_block [simp]: "length (realloc_block junk m n) = n"
  by (simp add: realloc_block_def)

lemma realloc_block_nth:
  "i < length m \<Longrightarrow> i < n \<Longrightarrow> realloc_block junk m n ! i = m ! i"
  by (simp add: realloc_block_def nth_append)

lemma load_realloc:
  assumes "q + k \<le> length m" and "length m \<le> n"
  shows "load_bytes (realloc_block junk m n) q k = load_bytes m q k"
proof -
  have "take k (drop q (realloc_block junk m n)) = take k (drop q m)"
    using assms by (intro nth_equalityI) (simp_all add: realloc_block_nth)
  then show ?thesis using assms by (simp add: load_bytes_def)
qed

lemma store_bytes_ex:
  "p + length bs \<le> length m \<Longrightarrow> \<exists>m'. store_bytes m p bs = Some m'"
  by (simp add: store_bytes_def)

lemma of_nat_unat_add_64:
  "a + b < 2 ^ 64 \<Longrightarrow> unat (of_nat a + of_nat b :: 64 word) = a + b"
  using unat_of_nat_64 [of "a + b"] by (simp only: of_nat_add)

section \<open>Lemmas: what a sequence of writes leaves alone\<close>

lemma writes_only_refl: "writes_only W m m"
  by (simp add: writes_only_def)

lemma writes_only_store:
  "store_bytes m p bs = Some m' \<Longrightarrow> writes_only {p..<p + length bs} m m'"
  by (auto simp: writes_only_def store_bytes_length store_bytes_nth)

lemma writes_only_trans:
  "writes_only W1 m m' \<Longrightarrow> writes_only W2 m' m'' \<Longrightarrow> writes_only (W1 \<union> W2) m m''"
  by (auto simp: writes_only_def)

lemma writes_only_mono:
  "writes_only W m m' \<Longrightarrow> W \<subseteq> W' \<Longrightarrow> writes_only W' m m'"
  by (auto simp: writes_only_def)

lemma writes_only_length: "writes_only W m m' \<Longrightarrow> length m' = length m"
  by (simp add: writes_only_def)

lemma writes_only_load:
  assumes w: "writes_only W m m'" and d: "{q..<q + k} \<inter> W = {}"
  shows "load_bytes m' q k = load_bytes m q k"
proof (cases "q + k \<le> length m")
  case True
  have len: "length m' = length m" using w by (simp add: writes_only_def)
  have "take k (drop q m') = take k (drop q m)"
  proof (rule nth_equalityI)
    show "length (take k (drop q m')) = length (take k (drop q m))" by (simp add: len)
  next
    fix i assume "i < length (take k (drop q m'))"
    then have ik: "i < k" by simp
    then have lt: "q + i < length m" using True by simp
    have "q + i \<in> {q..<q + k}" using ik by simp
    with d have "q + i \<notin> W" by blast
    then have "m' ! (q + i) = m ! (q + i)" using w lt by (simp add: writes_only_def)
    then show "take k (drop q m') ! i = take k (drop q m) ! i"
      using ik True len by simp
  qed
  then show ?thesis using True len by (simp add: load_bytes_def)
next
  case False
  then show ?thesis using w by (simp add: load_bytes_def writes_only_def)
qed

lemma load_bytes_sub:
  assumes "load_bytes m p n = Some bs" and "q + k \<le> n"
  shows "load_bytes m (p + q) k = load_bytes bs q k"
proof -
  have b: "bs = take n (drop p m)" and l: "p + n \<le> length m"
    using assms(1) by (auto simp: load_bytes_def split: if_splits)
  have "take k (drop (p + q) m) = take k (drop q (take n (drop p m)))"
    using assms(2) l by (intro nth_equalityI) (simp_all add: add.assoc)
  then show ?thesis using assms(2) l b by (simp add: load_bytes_def)
qed

lemma load_bytes_take:
  assumes "q + k \<le> n"
  shows "load_bytes (take n c) q k = load_bytes c q k"
proof (cases "q + k \<le> length c")
  case True
  have "take k (drop q (take n c)) = take k (drop q c)"
    using assms True by (intro nth_equalityI) simp_all
  then show ?thesis using assms True by (simp add: load_bytes_def)
next
  case False
  then show ?thesis using assms by (simp add: load_bytes_def)
qed


section \<open>Lemmas: well-formed chunks\<close>

lemma chunk_ok_cb:
  assumes "chunk_ok c"
  obtains cb where "load32 c 12 = Some cb" "16 \<le> sint cb" "nat (sint cb) \<le> length c"
    "chunk_len c = nat (sint cb)"
  using assms by (auto simp: chunk_ok_def chunk_len_def split: option.splits)

lemma chunk_ok_len: "chunk_ok c \<Longrightarrow> 16 \<le> chunk_len c \<and> chunk_len c \<le> length c"
  by (erule chunk_ok_cb) simp

lemma chunk_ok_nb: "chunk_ok c \<Longrightarrow> \<exists>nb. load32 c 4 = Some nb"
  using chunk_ok_len [of c] by (simp add: load32_def load_bytes_def)

lemma chunk_cbytes_of_nat:
  assumes "chunk_ok c"
  shows "chunk_cbytes c = of_nat (chunk_len c)"
proof -
  from assms obtain cb where cb: "load32 c 12 = Some cb" "16 \<le> sint cb"
    "chunk_len c = nat (sint cb)"
    by (rule chunk_ok_cb)
  have "0 \<le> sint cb" using cb(2) by linarith
  then have "(scast cb :: 64 word) = of_nat (nat (sint cb))" by (rule scast_nonneg_of_nat)
  moreover have "chunk_cbytes c = scast cb" by (simp add: chunk_cbytes_def cb(1))
  ultimately show ?thesis by (simp only: cb(3))
qed

lemma chunk_ok_load:
  assumes "chunk_ok c"
  shows "load_bytes c 0 (chunk_len c) = Some (chunk_bytes c)"
  using chunk_ok_len [OF assms] by (simp add: load_bytes_def chunk_bytes_def)

lemma length_chunk_bytes: "chunk_ok c \<Longrightarrow> length (chunk_bytes c) = chunk_len c"
  using chunk_ok_len [of c] by (simp add: chunk_bytes_def)

lemma load32_chunk_bytes:
  assumes "chunk_ok c" and "q + 4 \<le> 16"
  shows "load32 (chunk_bytes c) q = load32 c q"
  using chunk_ok_len [OF assms(1)] assms(2)
  by (simp add: load32_def chunk_bytes_def load_bytes_take)

section \<open>Appending a chunk to a packed image\<close>

text \<open>
  Claim C9: \<open>packed_append_chunk\<close> writes the chunk at the old image length minus
  \<open>nchunks \<times> 8\<close>, moves the offsets table forward by the chunk's \<open>cbytes\<close>, appends an entry
  equal to the chunk's position, and adds 1 to \<open>nchunks\<close>, \<open>nbytes + 8\<close> of the chunk to
  \<open>nbytes\<close>, \<open>cbytes + 8\<close> to \<open>cbytes\<close> and \<open>cbytes\<close> to the table position at byte 72. The
  image is one whose \<open>cbytes\<close> field is its length and whose table of \<open>nchunks\<close> entries
  ends it, at the position \<open>T\<close> stored at byte 72 and after the header fields; the chunk's
  \<open>cbytes\<close> is not negative and lies within its buffer. Besides the four fields, the
  bytes before the old table are as they were.
\<close>

theorem C9_packed_append_chunk:
  assumes n: "load64 packed 16 = Some n"
    and nb24: "load64 packed 24 = Some nbytes0"
    and len: "load64 packed 32 = Some (of_nat (length packed))"
    and off: "load64 packed 72 = Some (of_nat T)"
    and T: "T + 8 * unat n = length packed"
    and hdr: "80 \<le> T"
    and nb: "load32 chunk 4 = Some nb"
    and cb: "load32 chunk 12 = Some cb"
    and cb0: "0 \<le> sint cb"
    and cbl: "nat (sint cb) \<le> length chunk"
    and size: "length packed + nat (sint cb) + 8 < 2 ^ 64"
  shows "\<exists>packed'. blosc2_packed_append_chunk junk packed chunk = Some packed'
     \<and> length packed' = length packed + nat (sint cb) + 8
     \<and> load_bytes packed' T (nat (sint cb)) = Some (take (nat (sint cb)) chunk)
     \<and> load_bytes packed' (T + nat (sint cb)) (8 * unat n) = load_bytes packed T (8 * unat n)
     \<and> load64 packed' (T + nat (sint cb) + 8 * unat n) = Some (of_nat T)
     \<and> load64 packed' 16 = Some (n + 1)
     \<and> load64 packed' 24 = Some (nbytes0 + (scast nb + 8))
     \<and> load64 packed' 32 = Some (of_nat (length packed) + (scast cb + 8))
     \<and> load64 packed' 72 = Some (of_nat T + scast cb)
     \<and> (\<forall>i<T. \<not> (16 \<le> i \<and> i < 40) \<and> \<not> (72 \<le> i \<and> i < 80) \<longrightarrow> packed' ! i = packed ! i)"
proof -
  define C where "C = nat (sint cb)"
  define L where "L = length packed"
  define N where "N = unat n"
  have sc: "(scast cb :: 64 word) = of_nat C"
    using cb0 by (simp only: C_def scast_nonneg_of_nat)
  have size': "L + C + 8 < 2 ^ 64" using size by (simp only: L_def C_def)
  have TL: "T + 8 * N = L" using T by (simp only: L_def N_def)
  have CL: "C \<le> length chunk" using cbl by (simp only: C_def)
  have uT: "unat (of_nat T :: 64 word) = T"
    by (rule unat_of_nat_64) (use TL size' in linarith)
  have uC: "unat (of_nat C :: 64 word) = C"
    by (rule unat_of_nat_64) (use size' in linarith)
  have uTC: "unat (of_nat T + of_nat C :: 64 word) = T + C"
    by (rule of_nat_unat_add_64) (use TL size' in linarith)
  have uLC8: "unat (of_nat L + of_nat C + 8 :: 64 word) = L + C + 8"
  proof -
    have "(of_nat L + of_nat C + 8 :: 64 word) = of_nat (L + C + 8)" by simp
    then show ?thesis by (simp only: unat_of_nat_64 [OF size'])
  qed
  have un8: "unat (n * 8) = 8 * N"
  proof -
    have "unat n * unat (8 :: 64 word) < 2 ^ LENGTH(64)"
      using TL size' by (simp add: N_def)
    then have "unat (n * 8) = unat n * unat (8 :: 64 word)"
      by (simp only: unat_mult_lem)
    then show ?thesis by (simp add: N_def)
  qed
  have co: "(of_nat L - n * 8 :: 64 word) = of_nat T"
  proof -
    have "(of_nat L :: 64 word) = of_nat (T + 8 * N)" by (simp only: TL)
    also have "\<dots> = of_nat T + 8 * of_nat N" by simp
    also have "(of_nat N :: 64 word) = n" by (simp add: N_def)
    finally show ?thesis by simp
  qed
  define p0 where "p0 = realloc_block junk packed (L + C + 8)"
  have l0: "length p0 = L + C + 8" by (simp add: p0_def)
  have old: "load_bytes p0 q k = load_bytes packed q k" if "q + k \<le> L" for q k
    unfolding p0_def by (rule load_realloc) (use that in \<open>simp_all add: L_def\<close>)
  have tbl0: "load_bytes packed T (8 * N) = Some (drop T packed)"
    using TL by (simp add: load_bytes_def L_def)
  have tbl: "load_bytes p0 T (8 * N) = Some (drop T packed)"
    using old [of T "8 * N"] TL tbl0 by simp
  have ltbl: "length (drop T packed) = 8 * N" using TL by (simp add: L_def)
  obtain p1 where p1: "store_bytes p0 (T + C) (drop T packed) = Some p1"
    using store_bytes_ex [of "T + C" "drop T packed" p0] l0 ltbl TL by auto
  have l1: "length p1 = L + C + 8" using store_bytes_length [OF p1] l0 by simp
  obtain p2 where p2: "store_bytes p1 (T + C + 8 * N) (le_encode 8 (of_nat T :: 64 word)) = Some p2"
    using store_bytes_ex [of "T + C + 8 * N" "le_encode 8 (of_nat T :: 64 word)" p1] l1 TL by auto
  have l2: "length p2 = L + C + 8" using store_bytes_length [OF p2] l1 by simp
  have lch: "length (take C chunk) = C" using CL by simp
  have ldch: "load_bytes chunk 0 C = Some (take C chunk)" using CL by (simp add: load_bytes_def)
  obtain p3 where p3: "store_bytes p2 T (take C chunk) = Some p3"
    using store_bytes_ex [of T "take C chunk" p2] l2 lch TL by auto
  have l3: "length p3 = L + C + 8" using store_bytes_length [OF p3] l2 by simp
  have h3: "load_bytes p3 q k = load_bytes packed q k" if "q + k \<le> T" for q k
  proof -
    have "load_bytes p3 q k = load_bytes p2 q k"
      by (rule load_store_other [OF p3]) (use that in simp)
    also have "\<dots> = load_bytes p1 q k"
      by (rule load_store_other [OF p2]) (use that in simp)
    also have "\<dots> = load_bytes p0 q k"
      by (rule load_store_other [OF p1]) (use that in simp)
    also have "\<dots> = load_bytes packed q k"
      by (rule old) (use that TL in simp)
    finally show ?thesis .
  qed
  have v16: "load64 p3 16 = Some n" using h3 [of 16 8] hdr n by (simp add: load64_def)
  obtain p4 where p4: "store_bytes p3 16 (le_encode 8 (n + 1)) = Some p4"
    using store_bytes_ex [of 16 "le_encode 8 (n + 1)" p3] l3 TL hdr by auto
  have l4: "length p4 = L + C + 8" using store_bytes_length [OF p4] l3 by simp
  have v24: "load64 p4 24 = Some nbytes0"
    using load_store_other [OF p4, of 24 8] h3 [of 24 8] hdr nb24 by (simp add: load64_def)
  obtain p5 where p5: "store_bytes p4 24 (le_encode 8 (nbytes0 + (scast nb + 8))) = Some p5"
    using store_bytes_ex [of 24 "le_encode 8 (nbytes0 + (scast nb + 8))" p4] l4 TL hdr by auto
  have l5: "length p5 = L + C + 8" using store_bytes_length [OF p5] l4 by simp
  have v32: "load64 p5 32 = Some (of_nat L)"
    using load_store_other [OF p5, of 32 8] load_store_other [OF p4, of 32 8] h3 [of 32 8] hdr len
    by (simp add: load64_def L_def)
  obtain p6 where p6: "store_bytes p5 32 (le_encode 8 (of_nat L + (of_nat C + 8) :: 64 word)) = Some p6"
    using store_bytes_ex [of 32 "le_encode 8 (of_nat L + (of_nat C + 8) :: 64 word)" p5] l5 TL hdr by auto
  have l6: "length p6 = L + C + 8" using store_bytes_length [OF p6] l5 by simp
  have v72: "load64 p6 72 = Some (of_nat T)"
    using load_store_other [OF p6, of 72 8] load_store_other [OF p5, of 72 8]
      load_store_other [OF p4, of 72 8] h3 [of 72 8] hdr off
    by (simp add: load64_def)
  obtain p7 where p7: "store_bytes p6 72 (le_encode 8 (of_nat T + of_nat C :: 64 word)) = Some p7"
    using store_bytes_ex [of 72 "le_encode 8 (of_nat T + of_nat C :: 64 word)" p6] l6 TL hdr by auto
  have l7: "length p7 = L + C + 8" using store_bytes_length [OF p7] l6 by simp
  have run: "blosc2_packed_append_chunk junk packed chunk = Some p7"
    using n len off nb cb
    by (simp add: blosc2_packed_append_chunk_def Let_def sc L_def [symmetric] uLC8 p0_def [symmetric]
        uT uC uTC un8 co tbl p1 store64_def p2 ldch p3
        v16 p4 v24 p5 v32 p6 v72 p7 N_def [symmetric])
  have hi: "load_bytes p7 q k = load_bytes p3 q k" if "80 \<le> q" for q k
  proof -
    have "load_bytes p7 q k = load_bytes p6 q k"
      by (rule load_store_other [OF p7]) (use that in simp)
    also have "\<dots> = load_bytes p5 q k"
      by (rule load_store_other [OF p6]) (use that in simp)
    also have "\<dots> = load_bytes p4 q k"
      by (rule load_store_other [OF p5]) (use that in simp)
    also have "\<dots> = load_bytes p3 q k"
      by (rule load_store_other [OF p4]) (use that in simp)
    finally show ?thesis .
  qed
  have a: "load_bytes p7 T C = Some (take C chunk)"
    using hi [of T C] hdr load_store_same [OF p3] lch by simp
  have b: "load_bytes p7 (T + C) (8 * N) = load_bytes packed T (8 * N)"
  proof -
    have "load_bytes p7 (T + C) (8 * N) = load_bytes p3 (T + C) (8 * N)"
      by (rule hi) (use hdr in simp)
    also have "\<dots> = load_bytes p2 (T + C) (8 * N)"
      by (rule load_store_other [OF p3]) (simp add: lch)
    also have "\<dots> = load_bytes p1 (T + C) (8 * N)"
      by (rule load_store_other [OF p2]) simp
    also have "\<dots> = Some (drop T packed)"
      using load_store_same [OF p1] ltbl by simp
    finally show ?thesis using tbl0 by simp
  qed
  have c: "load64 p7 (T + C + 8 * N) = Some (of_nat T)"
  proof -
    have "load_bytes p7 (T + C + 8 * N) 8 = load_bytes p3 (T + C + 8 * N) 8"
      by (rule hi) (use hdr in simp)
    also have "\<dots> = load_bytes p2 (T + C + 8 * N) 8"
      by (rule load_store_other [OF p3]) (simp add: lch)
    also have "\<dots> = Some (le_encode 8 (of_nat T :: 64 word))"
      using load_store_same [OF p2] by simp
    finally show ?thesis by (simp add: load64_def)
  qed
  have d: "load64 p7 16 = Some (n + 1)"
  proof -
    have "load_bytes p7 16 8 = load_bytes p6 16 8"
      by (rule load_store_other [OF p7]) simp
    also have "\<dots> = load_bytes p5 16 8"
      by (rule load_store_other [OF p6]) simp
    also have "\<dots> = load_bytes p4 16 8"
      by (rule load_store_other [OF p5]) simp
    also have "\<dots> = Some (le_encode 8 (n + 1))"
      using load_store_same [OF p4] by simp
    finally show ?thesis by (simp add: load64_def)
  qed
  have e: "load64 p7 24 = Some (nbytes0 + (scast nb + 8))"
  proof -
    have "load_bytes p7 24 8 = load_bytes p6 24 8"
      by (rule load_store_other [OF p7]) simp
    also have "\<dots> = load_bytes p5 24 8"
      by (rule load_store_other [OF p6]) simp
    also have "\<dots> = Some (le_encode 8 (nbytes0 + (scast nb + 8)))"
      using load_store_same [OF p5] by simp
    finally show ?thesis by (simp add: load64_def)
  qed
  have f: "load64 p7 32 = Some (of_nat L + (of_nat C + 8))"
  proof -
    have "load_bytes p7 32 8 = load_bytes p6 32 8"
      by (rule load_store_other [OF p7]) simp
    also have "\<dots> = Some (le_encode 8 (of_nat L + (of_nat C + 8) :: 64 word))"
      using load_store_same [OF p6] by simp
    finally show ?thesis by (simp add: load64_def)
  qed
  have g: "load64 p7 72 = Some (of_nat T + of_nat C)"
    using load_store_same [OF p7] by (simp add: load64_def)
  have h: "p7 ! i = packed ! i" if "i < T" "\<not> (16 \<le> i \<and> i < 40)" "\<not> (72 \<le> i \<and> i < 80)" for i
  proof -
    have iL: "i < L + C + 8" using that TL by simp
    have "p7 ! i = p6 ! i" using store_bytes_nth [OF p7, of i] that iL l6 by auto
    also have "\<dots> = p5 ! i" using store_bytes_nth [OF p6, of i] that iL l5 by auto
    also have "\<dots> = p4 ! i" using store_bytes_nth [OF p5, of i] that iL l4 by auto
    also have "\<dots> = p3 ! i" using store_bytes_nth [OF p4, of i] that iL l3 by auto
    also have "\<dots> = p2 ! i" using store_bytes_nth [OF p3, of i] that iL l2 by auto
    also have "\<dots> = p1 ! i" using store_bytes_nth [OF p2, of i] that iL l1 by auto
    also have "\<dots> = p0 ! i" using store_bytes_nth [OF p1, of i] that iL l0 by auto
    also have "\<dots> = packed ! i"
      unfolding p0_def by (rule realloc_block_nth) (use that TL in \<open>simp_all add: L_def\<close>)
    finally show ?thesis .
  qed
  show ?thesis
    using run l7 a b c d e f g h
    by (simp add: sc C_def [symmetric] L_def [symmetric] N_def [symmetric])
qed

theorem C9_packed_append_chunk_witness:
  "\<exists>p. blosc2_packed_append_chunk zero_junk delta_image1 (store_chunk 1 3 [7, 8, 9]) = Some p
     \<and> length p = length delta_image1 + nat (sint (19 :: 32 word)) + 8
     \<and> load_bytes p 114 (nat (sint (19 :: 32 word)))
         = Some (take (nat (sint (19 :: 32 word))) (store_chunk 1 3 [7, 8, 9]))
     \<and> load_bytes p (114 + nat (sint (19 :: 32 word))) (8 * unat (1 :: 64 word))
         = load_bytes delta_image1 114 (8 * unat (1 :: 64 word))
     \<and> load64 p (114 + nat (sint (19 :: 32 word)) + 8 * unat (1 :: 64 word)) = Some (of_nat 114)
     \<and> load64 p 16 = Some (1 + 1)
     \<and> load64 p 24 = Some (106 + (scast (3 :: 32 word) + 8))
     \<and> load64 p 32 = Some (of_nat (length delta_image1) + (scast (19 :: 32 word) + 8))
     \<and> load64 p 72 = Some (of_nat 114 + scast (19 :: 32 word))"
proof -
  have n: "load64 delta_image1 16 = Some 1" by code_simp
  have nb24: "load64 delta_image1 24 = Some 106" by code_simp
  have len: "load64 delta_image1 32 = Some (of_nat (length delta_image1))" by code_simp
  have off: "load64 delta_image1 72 = Some (of_nat 114)" by code_simp
  have T: "114 + 8 * unat (1 :: 64 word) = length delta_image1" by code_simp
  have hdr: "(80 :: nat) \<le> 114" by simp
  have nb: "load32 (store_chunk 1 3 [7, 8, 9]) 4 = Some 3" by code_simp
  have cb: "load32 (store_chunk 1 3 [7, 8, 9]) 12 = Some 19" by code_simp
  have cb0: "0 \<le> sint (19 :: 32 word)" by simp
  have cbl: "nat (sint (19 :: 32 word)) \<le> length (store_chunk 1 3 [7, 8, 9])" by code_simp
  have "length delta_image1 = 122" by code_simp
  then have size: "length delta_image1 + nat (sint (19 :: 32 word)) + 8 < 2 ^ 64" by simp
  from C9_packed_append_chunk [OF n nb24 len off T hdr nb cb cb0 cbl size, of zero_junk]
  show ?thesis by blast
qed

section \<open>Lemmas: the length of the image\<close>

lemma sint_of_nat_64: "n < 2 ^ 63 \<Longrightarrow> sint (of_nat n :: 64 word) = int n"
  by (simp add: signed_of_nat signed_take_bit_int_eq_self)

lemma loop_count_of_nat: "n \<le> 2147483647 \<Longrightarrow> loop_count (of_nat n) = Some n"
proof -
  assume a: "n \<le> 2147483647"
  then have "n < 2 ^ 63" by simp
  then have "sint (of_nat n :: 64 word) = int n" by (rule sint_of_nat_64)
  then show ?thesis using a by (simp add: loop_count_def)
qed

lemma ptr_cbytes_of_nat: "ptr_ok p \<Longrightarrow> ptr_cbytes p = of_nat (ptr_len p)"
  by (cases p) (simp_all add: ptr_ok_def ptr_cbytes_def ptr_len_def chunk_cbytes_of_nat)

lemma chunk_ok_load12: "chunk_ok c \<Longrightarrow> \<exists>cb. load32 c 12 = Some cb \<and> chunk_cbytes c = scast cb"
  by (erule chunk_ok_cb) (simp add: chunk_cbytes_def)

lemma chunk_ok_load4: "chunk_ok c \<Longrightarrow> \<exists>nb. load32 c 4 = Some nb \<and> chunk_nbytes c = scast nb"
  using chunk_ok_nb [of c] by (auto simp: chunk_nbytes_def)

lemma add_chunk_cbytes_ok: "ptr_ok p \<Longrightarrow> add_chunk_cbytes p len = Some (len + ptr_cbytes p)"
proof (cases p)
  case (Ptr c)
  assume "ptr_ok p"
  then have "chunk_ok c" using Ptr by (simp add: ptr_ok_def)
  then obtain cb where "load32 c 12 = Some cb" "chunk_cbytes c = scast cb"
    using chunk_ok_load12 by blast
  then show ?thesis using Ptr by (simp add: add_chunk_cbytes_def ptr_cbytes_def)
qed (simp_all add: add_chunk_cbytes_def ptr_cbytes_def ptr_ok_def)

lemma take_Suc_drop: "i < length ds \<Longrightarrow> take (Suc k) (drop i ds) = ds ! i # take k (drop (Suc i) ds)"
  by (simp add: Cons_nth_drop_Suc [symmetric])

lemma packed_length_loop_ok:
  "i + k \<le> length ds \<Longrightarrow> list_all chunk_ok ds \<Longrightarrow>
   packed_length_loop ds i k len
     = Some (len + sum_list (map (\<lambda>c. 8 + chunk_cbytes c) (take k (drop i ds))))"
proof (induction k arbitrary: i len)
  case 0
  then show ?case by simp
next
  case (Suc k)
  then have i: "i < length ds" by simp
  then have "chunk_ok (ds ! i)" using Suc.prems(2) by (simp add: list_all_length)
  then obtain cb where cb: "load32 (ds ! i) 12 = Some cb" "chunk_cbytes (ds ! i) = scast cb"
    using chunk_ok_load12 by blast
  have "Suc i + k \<le> length ds" using Suc.prems(1) by simp
  from Suc.IH [OF this Suc.prems(2)] i cb show ?case
    by (simp add: nth_opt_def take_Suc_drop add.assoc)
qed

lemma sum_list_8_plus:
  "sum_list (map (\<lambda>c. 8 + chunk_cbytes c) ds) = of_nat (length ds) * 8 + sum_list (map chunk_cbytes ds)"
  by (induction ds) (simp_all add: algebra_simps)

lemma sum_list_chunk_cbytes:
  "list_all chunk_ok ds \<Longrightarrow> sum_list (map chunk_cbytes ds) = of_nat (sum_list (map chunk_len ds))"
  by (induction ds) (simp_all add: chunk_cbytes_of_nat)

lemma get_packed_length_word:
  assumes "ptr_ok (filters_chunk sc)" "ptr_ok (codec_chunk sc)"
    "ptr_ok (metadata_chunk sc)" "ptr_ok (userdata_chunk sc)"
    "list_all chunk_ok (data_list sc)" "nchunks sc = of_nat (length (data_list sc))"
    "length (data_list sc) \<le> 2147483647"
  shows "blosc2_get_packed_length K sc
    = Some (BLOSC_HEADER_PACKED_LENGTH K + sum_ancillary_cbytes sc + sum_data_cbytes sc
            + nchunks sc * 8)"
proof (cases "data sc")
  case None
  then have "data_list sc = []" by (simp add: data_list_def)
  then show ?thesis using assms None
    by (simp add: blosc2_get_packed_length_def add_chunk_cbytes_ok sum_ancillary_cbytes_def
        sum_data_cbytes_def add.assoc)
next
  case (Some ds)
  then have ds: "data_list sc = ds" by (simp add: data_list_def)
  have lc: "loop_count (nchunks sc) = Some (length ds)"
    using assms(6,7) ds by (simp add: loop_count_of_nat)
  have "0 + length ds \<le> length ds" by simp
  from packed_length_loop_ok [OF this] assms(5) ds
  have loop: "packed_length_loop ds 0 (length ds) len
      = Some (len + (of_nat (length ds) * 8 + sum_list (map chunk_cbytes ds)))" for len
    by (simp add: sum_list_8_plus)
  show ?thesis using assms(1-4,6) Some ds lc
    by (simp add: blosc2_get_packed_length_def add_chunk_cbytes_ok loop sum_ancillary_cbytes_def
        sum_data_cbytes_def algebra_simps)
qed

lemma packed_size_word:
  assumes "wf_schunk K sc"
  shows "BLOSC_HEADER_PACKED_LENGTH K + sum_ancillary_cbytes sc + sum_data_cbytes sc + nchunks sc * 8
    = of_nat (packed_size K sc)"
  using assms
  by (simp add: wf_schunk_def packed_size_def anc_end_def sum_ancillary_cbytes_def
      sum_data_cbytes_def ptr_cbytes_of_nat sum_list_chunk_cbytes algebra_simps)

lemma get_packed_length_nat:
  assumes "wf_schunk K sc"
  shows "blosc2_get_packed_length K sc = Some (of_nat (packed_size K sc))"
proof -
  have "blosc2_get_packed_length K sc
    = Some (BLOSC_HEADER_PACKED_LENGTH K + sum_ancillary_cbytes sc + sum_data_cbytes sc
            + nchunks sc * 8)"
    by (rule get_packed_length_word) (use assms in \<open>simp_all add: wf_schunk_def\<close>)
  then show ?thesis by (simp only: packed_size_word [OF assms])
qed

section \<open>Lemmas: pack lays the image out\<close>

lemma data_pos_0 [simp]: "data_pos a ds 0 = a"
  by (simp add: data_pos_def)

lemma data_pos_Suc:
  "i < length ds \<Longrightarrow> data_pos a ds (Suc i) = data_pos a ds i + chunk_len (ds ! i)"
  by (simp add: data_pos_def take_Suc_conv_app_nth)

lemma data_pos_add:
  "data_pos a ds (i + k) = data_pos a ds i + sum_list (map chunk_len (take k (drop i ds)))"
  by (simp add: data_pos_def take_add)

lemma data_pos_mono: "i \<le> j \<Longrightarrow> data_pos a ds i \<le> data_pos a ds j"
  using data_pos_add [of a ds i "j - i"] by simp

lemma data_pos_all: "length ds \<le> i \<Longrightarrow> data_pos a ds i = a + sum_list (map chunk_len ds)"
  by (simp add: data_pos_def)

lemma store64_ex:
  "p + 8 \<le> length m \<Longrightarrow> \<exists>m'. store64 m p w = Some m'"
  by (simp add: store64_def store_bytes_def)

lemma load64_store64: "store64 m p w = Some m' \<Longrightarrow> load64 m' p = Some w"
  using load_store_same [of m p "le_encode 8 w" m'] by (simp add: store64_def load64_def)

lemma writes_only_store64: "store64 m p w = Some m' \<Longrightarrow> writes_only {p..<p + 8} m m'"
  using writes_only_store [of m p "le_encode 8 w" m'] by (simp add: store64_def)

lemma writes_only_load64:
  "writes_only W m m' \<Longrightarrow> {q..<q + 8} \<inter> W = {} \<Longrightarrow> load64 m' q = load64 m q"
  by (simp add: load64_def writes_only_load)

lemma pack_copy_chunk_spec:
  assumes ok: "ptr_ok p" and pos: "pos + ptr_len p \<le> length packed"
    and lt: "length packed < 2 ^ 64" and off: "off + 8 \<le> pos"
  shows "\<exists>packed'. pack_copy_chunk p off (packed, of_nat pos, nbr)
             = Some (packed', of_nat (pos + ptr_len p), nbr + ptr_nbytes p)
     \<and> writes_only ({off..<off + 8} \<union> {pos..<pos + ptr_len p}) packed packed'
     \<and> anc_at packed' off p pos"
proof (cases p)
  case NULL
  have "off + 8 \<le> length packed" using pos off by simp
  then obtain p1 where p1: "store64 packed off 0 = Some p1" using store64_ex by blast
  have w: "writes_only ({off..<off + 8} \<union> {pos..<pos + ptr_len p}) packed p1"
    by (rule writes_only_mono [OF writes_only_store64 [OF p1]]) simp
  show ?thesis using NULL p1 w load64_store64 [OF p1]
    by (simp add: pack_copy_chunk_def ptr_len_def ptr_nbytes_def anc_at_def)
next
  case Dangling
  then show ?thesis using ok by (simp add: ptr_ok_def)
next
  case (Ptr c)
  then have cok: "chunk_ok c" using ok by (simp add: ptr_ok_def)
  have pl: "ptr_len p = chunk_len c" using Ptr by (simp add: ptr_len_def)
  from cok obtain cb where cb: "load32 c 12 = Some cb" "16 \<le> sint cb" "chunk_len c = nat (sint cb)"
    by (rule chunk_ok_cb)
  from cok obtain nb where nb: "load32 c 4 = Some nb" "chunk_nbytes c = scast nb"
    using chunk_ok_load4 by blast
  have cb0: "0 \<le> sint cb" using cb(2) by linarith
  have ucb: "unat (scast cb :: 64 word) = chunk_len c"
    by (simp only: unat_scast_nonneg [OF cb0] cb(3))
  have scb: "(scast cb :: 64 word) = of_nat (chunk_len c)"
    by (simp only: scast_nonneg_of_nat [OF cb0] cb(3))
  have ucb': "unat (of_nat (chunk_len c) :: 64 word) = chunk_len c"
    using ucb by (simp only: scb)
  have upos: "unat (of_nat pos :: 64 word) = pos"
    by (rule unat_of_nat_64) (use pos lt in linarith)
  have ld: "load_bytes c 0 (chunk_len c) = Some (chunk_bytes c)" by (rule chunk_ok_load [OF cok])
  have lcb: "length (chunk_bytes c) = chunk_len c" by (rule length_chunk_bytes [OF cok])
  obtain p1 where p1: "store_bytes packed pos (chunk_bytes c) = Some p1"
    using store_bytes_ex [of pos "chunk_bytes c" packed] pos pl lcb by auto
  have l1: "length p1 = length packed" by (rule store_bytes_length [OF p1])
  have "off + 8 \<le> length p1" using pos off l1 by simp
  then obtain p2 where p2: "store64 p1 off (of_nat pos) = Some p2" using store64_ex by blast
  have w1: "writes_only {pos..<pos + chunk_len c} packed p1"
    using writes_only_store [OF p1] lcb by simp
  have w2: "writes_only {off..<off + 8} p1 p2" by (rule writes_only_store64 [OF p2])
  have w: "writes_only ({off..<off + 8} \<union> {pos..<pos + ptr_len p}) packed p2"
    using writes_only_trans [OF w1 w2] pl by (simp add: Un_commute)
  have "load_bytes p2 pos (chunk_len c) = load_bytes p1 pos (chunk_len c)"
    by (rule writes_only_load [OF w2]) (use off in auto)
  then have c: "load_bytes p2 pos (chunk_len c) = Some (chunk_bytes c)"
    using load_store_same [OF p1] lcb by simp
  have run: "pack_copy_chunk p off (packed, of_nat pos, nbr)
      = Some (p2, of_nat (pos + ptr_len p), nbr + ptr_nbytes p)"
    using Ptr cb(1) nb by (simp add: pack_copy_chunk_def ucb' ld upos p1 p2 scb ptr_len_def ptr_nbytes_def)
  show ?thesis using run w c load64_store64 [OF p2] Ptr by (simp add: anc_at_def)
qed

lemma anc_at_preserved:
  assumes "anc_at m off p pos" and w: "writes_only W m m'"
    and "{off..<off + 8} \<inter> W = {}" and "{pos..<pos + ptr_len p} \<inter> W = {}"
  shows "anc_at m' off p pos"
proof (cases p)
  case (Ptr c)
  have "load_bytes m' pos (chunk_len c) = load_bytes m pos (chunk_len c)"
    by (rule writes_only_load [OF w]) (use assms(4) Ptr in \<open>simp add: ptr_len_def\<close>)
  then show ?thesis using assms(1,3) Ptr writes_only_load64 [OF w, of off]
    by (simp add: anc_at_def)
qed (use assms writes_only_load64 [OF w, of off] in \<open>simp_all add: anc_at_def\<close>)

lemma pack_data_loop_spec:
  assumes ok: "list_all chunk_ok ds" and ik: "i + k \<le> length ds"
    and fit: "data_pos a ds (i + k) \<le> tp" and tbl: "tp + 8 * (i + k) \<le> length packed"
    and lt: "length packed < 2 ^ 64"
  shows "\<exists>packed'. pack_data_loop ds tp i k (packed, of_nat (data_pos a ds i), nbr)
           = Some (packed', of_nat (data_pos a ds (i + k)),
                   nbr + sum_list (map chunk_nbytes (take k (drop i ds))))
     \<and> writes_only ({data_pos a ds i..<data_pos a ds (i + k)} \<union> {tp + 8 * i..<tp + 8 * (i + k)})
           packed packed'
     \<and> (\<forall>j. i \<le> j \<and> j < i + k \<longrightarrow>
            load64 packed' (tp + 8 * j) = Some (of_nat (data_pos a ds j))
            \<and> load_bytes packed' (data_pos a ds j) (chunk_len (ds ! j)) = Some (chunk_bytes (ds ! j)))"
  using ik fit tbl lt
proof (induction k arbitrary: i packed nbr)
  case 0
  show ?case by (auto simp add: writes_only_refl)
next
  case (Suc k)
  let ?c = "ds ! i"
  let ?q = "data_pos a ds i"
  let ?len = "chunk_len ?c"
  have i: "i < length ds" using Suc.prems(1) by simp
  have cok: "chunk_ok ?c" using ok i by (simp add: list_all_length)
  have q': "data_pos a ds (Suc i) = ?q + ?len" by (rule data_pos_Suc [OF i])
  have mono: "data_pos a ds (Suc i) \<le> data_pos a ds (Suc i + k)" by (rule data_pos_mono) simp
  have fit': "data_pos a ds (Suc i + k) \<le> tp" using Suc.prems(2) by simp
  from cok obtain cb where cb: "load32 ?c 12 = Some cb" "16 \<le> sint cb" "?len = nat (sint cb)"
    by (rule chunk_ok_cb)
  from cok obtain nb where nb: "load32 ?c 4 = Some nb" "chunk_nbytes ?c = scast nb"
    using chunk_ok_load4 by blast
  have cb0: "0 \<le> sint cb" using cb(2) by linarith
  have scb: "(scast cb :: 64 word) = of_nat ?len"
    by (simp only: scast_nonneg_of_nat [OF cb0] cb(3))
  have ucb: "unat (of_nat ?len :: 64 word) = ?len"
    using unat_scast_nonneg [OF cb0] by (simp only: scb cb(3))
  have uq: "unat (of_nat ?q :: 64 word) = ?q"
    by (rule unat_of_nat_64) (use q' mono fit' Suc.prems(3,4) in linarith)
  have ld: "load_bytes ?c 0 ?len = Some (chunk_bytes ?c)" by (rule chunk_ok_load [OF cok])
  have lcb: "length (chunk_bytes ?c) = ?len" by (rule length_chunk_bytes [OF cok])
  obtain p1 where p1: "store_bytes packed ?q (chunk_bytes ?c) = Some p1"
    using store_bytes_ex [of ?q "chunk_bytes ?c" packed] lcb q' mono fit' Suc.prems(3) by auto
  have l1: "length p1 = length packed" by (rule store_bytes_length [OF p1])
  have "tp + 8 * i + 8 \<le> length p1" using Suc.prems(3) l1 by simp
  then obtain p2 where p2: "store64 p1 (tp + 8 * i) (of_nat ?q) = Some p2"
    using store64_ex by blast
  have l2: "length p2 = length packed"
    using writes_only_length [OF writes_only_store64 [OF p2]] l1 by simp
  have w1: "writes_only {?q..<?q + ?len} packed p1"
    using writes_only_store [OF p1] lcb by simp
  have w2: "writes_only {tp + 8 * i..<tp + 8 * i + 8} p1 p2" by (rule writes_only_store64 [OF p2])
  have ik': "Suc i + k \<le> length ds" using Suc.prems(1) by simp
  have tbl': "tp + 8 * (Suc i + k) \<le> length p2" using Suc.prems(3) l2 by simp
  have lt': "length p2 < 2 ^ 64" using Suc.prems(4) l2 by simp
  from Suc.IH [OF ik' fit' tbl' lt', of "nbr + scast nb"]
  obtain p' where
    run': "pack_data_loop ds tp (Suc i) k (p2, of_nat (data_pos a ds (Suc i)), nbr + scast nb)
             = Some (p', of_nat (data_pos a ds (Suc i + k)),
                     nbr + scast nb + sum_list (map chunk_nbytes (take k (drop (Suc i) ds))))"
    and w': "writes_only ({data_pos a ds (Suc i)..<data_pos a ds (Suc i + k)}
                 \<union> {tp + 8 * Suc i..<tp + 8 * (Suc i + k)}) p2 p'"
    and f': "\<forall>j. Suc i \<le> j \<and> j < Suc i + k \<longrightarrow>
            load64 p' (tp + 8 * j) = Some (of_nat (data_pos a ds j))
            \<and> load_bytes p' (data_pos a ds j) (chunk_len (ds ! j)) = Some (chunk_bytes (ds ! j))"
    by blast
  have run: "pack_data_loop ds tp i (Suc k) (packed, of_nat ?q, nbr)
      = Some (p', of_nat (data_pos a ds (i + Suc k)),
              nbr + sum_list (map chunk_nbytes (take (Suc k) (drop i ds))))"
    using i cb(1) nb run'
    by (simp add: nth_opt_def scb ucb ld uq p1 p2 q' take_Suc_drop add.assoc)
  have w12: "writes_only ({?q..<?q + ?len} \<union> {tp + 8 * i..<tp + 8 * i + 8}) packed p2"
    by (rule writes_only_trans [OF w1 w2])
  have w: "writes_only ({?q..<data_pos a ds (i + Suc k)} \<union> {tp + 8 * i..<tp + 8 * (i + Suc k)})
             packed p'"
    by (rule writes_only_mono [OF writes_only_trans [OF w12 w']]) (use q' mono in auto)
  have e_i: "load64 p' (tp + 8 * i) = Some (of_nat ?q)"
  proof -
    have "load64 p' (tp + 8 * i) = load64 p2 (tp + 8 * i)"
      by (rule writes_only_load64 [OF w']) (use fit' in auto)
    then show ?thesis using load64_store64 [OF p2] by simp
  qed
  have c_i: "load_bytes p' ?q ?len = Some (chunk_bytes ?c)"
  proof -
    have "load_bytes p' ?q ?len = load_bytes p2 ?q ?len"
      by (rule writes_only_load [OF w']) (use q' mono fit' in auto)
    also have "\<dots> = load_bytes p1 ?q ?len"
      by (rule writes_only_load [OF w2]) (use q' mono fit' in auto)
    finally show ?thesis using load_store_same [OF p1] lcb by simp
  qed
  have f: "load64 p' (tp + 8 * j) = Some (of_nat (data_pos a ds j))
            \<and> load_bytes p' (data_pos a ds j) (chunk_len (ds ! j)) = Some (chunk_bytes (ds ! j))"
    if "i \<le> j \<and> j < i + Suc k" for j
  proof (cases "j = i")
    case True
    then show ?thesis using e_i c_i by simp
  next
    case False
    then have "Suc i \<le> j \<and> j < Suc i + k" using that by simp
    then show ?thesis using f' by blast
  qed
  show ?case using run w f by blast
qed

lemma length_malloc_block [simp]: "length (malloc_block junk n) = n"
  by (simp add: malloc_block_def)

lemma length_header_prefix [simp]: "length (header_prefix sc) = 40"
  by (simp add: header_prefix_def)

lemma pack_layout:
  assumes wf: "wf_schunk K sc"
  shows "\<exists>img. blosc2_pack_schunk K junk sc = Some img \<and> image_layout K sc img"
proof -
  define Hw where "Hw = BLOSC_HEADER_PACKED_LENGTH K"
  define H where "H = unat Hw"
  define fc where "fc = filters_chunk sc"
  define cc where "cc = codec_chunk sc"
  define mc where "mc = metadata_chunk sc"
  define uc where "uc = userdata_chunk sc"
  define ds where "ds = data_list sc"
  define n where "n = length ds"
  define a2 where "a2 = H + ptr_len fc"
  define a3 where "a3 = a2 + ptr_len cc"
  define a4 where "a4 = a3 + ptr_len mc"
  define A where "A = a4 + ptr_len uc"
  define T where "T = data_pos A ds n"
  define S where "S = T + 8 * n"
  define nb4 where "nb4 = Hw + ptr_nbytes fc + ptr_nbytes cc + ptr_nbytes mc + ptr_nbytes uc"
  have Aeq: "anc_end K sc = A"
    by (simp add: anc_end_def A_def a4_def a3_def a2_def H_def Hw_def fc_def cc_def mc_def uc_def)
  have Seq: "packed_size K sc = S"
    by (simp add: packed_size_def Aeq S_def T_def data_pos_all n_def ds_def)
  have ok: "ptr_ok fc" "ptr_ok cc" "ptr_ok mc" "ptr_ok uc" "list_all chunk_ok ds"
    and nch: "nchunks sc = of_nat n" and nmax: "n \<le> 2147483647" and H80: "80 \<le> H"
    and S63: "S < 2 ^ 63"
    using wf Seq by (simp_all add: wf_schunk_def fc_def cc_def mc_def uc_def ds_def n_def H_def Hw_def)
  have S64: "S < 2 ^ 64"
  proof -
    have "(2 :: nat) ^ 63 < 2 ^ 64" by simp
    with S63 show ?thesis by (rule less_trans)
  qed
  have HwH: "Hw = of_nat H" by (simp add: H_def)
  have AT: "A \<le> T" using data_pos_mono [of 0 n A ds] by (simp add: T_def)
  have ord: "H \<le> a2" "a2 \<le> a3" "a3 \<le> a4" "a4 \<le> A" "T \<le> S"
    by (simp_all add: a2_def a3_def a4_def A_def S_def)
  have gpl: "blosc2_get_packed_length K sc = Some (of_nat S)"
    using get_packed_length_nat [OF wf] Seq by simp
  have uS: "unat (of_nat S :: 64 word) = S" by (rule unat_of_nat_64 [OF S64])
  define m0 where "m0 = malloc_block junk S"
  have lm0: "length m0 = S" by (simp add: m0_def)
  obtain p0 where p0: "store_bytes m0 0 (header_prefix sc) = Some p0"
    using store_bytes_ex [of 0 "header_prefix sc" m0] lm0 H80 ord AT by auto
  have l0: "length p0 = S" using store_bytes_length [OF p0] lm0 by simp
  have h0: "load_bytes p0 0 16 = Some (take 16 (header_prefix sc))"
    using l0 H80 ord AT p0 by (auto simp: load_bytes_def store_bytes_def split: if_splits)
  obtain p1 where st1: "pack_copy_chunk fc 40 (p0, of_nat H, Hw) = Some (p1, of_nat a2, Hw + ptr_nbytes fc)"
    and w1: "writes_only ({40..<40 + 8} \<union> {H..<H + ptr_len fc}) p0 p1"
    and f1: "anc_at p1 40 fc H"
    using pack_copy_chunk_spec [OF ok(1), of H p0 40 Hw] l0 S64 H80 ord AT
    unfolding a2_def by auto
  have l1: "length p1 = S" using writes_only_length [OF w1] l0 by simp
  obtain p2 where st2: "pack_copy_chunk cc 48 (p1, of_nat a2, Hw + ptr_nbytes fc)
        = Some (p2, of_nat a3, Hw + ptr_nbytes fc + ptr_nbytes cc)"
    and w2: "writes_only ({48..<48 + 8} \<union> {a2..<a2 + ptr_len cc}) p1 p2"
    and f2: "anc_at p2 48 cc a2"
    using pack_copy_chunk_spec [OF ok(2), of a2 p1 48 "Hw + ptr_nbytes fc"] l1 S64 H80 ord AT
    unfolding a3_def by auto
  have l2: "length p2 = S" using writes_only_length [OF w2] l1 by simp
  obtain p3 where st3: "pack_copy_chunk mc 56 (p2, of_nat a3, Hw + ptr_nbytes fc + ptr_nbytes cc)
        = Some (p3, of_nat a4, Hw + ptr_nbytes fc + ptr_nbytes cc + ptr_nbytes mc)"
    and w3: "writes_only ({56..<56 + 8} \<union> {a3..<a3 + ptr_len mc}) p2 p3"
    and f3: "anc_at p3 56 mc a3"
    using pack_copy_chunk_spec [OF ok(3), of a3 p2 56 "Hw + ptr_nbytes fc + ptr_nbytes cc"]
      l2 S64 H80 ord AT
    unfolding a4_def by auto
  have l3: "length p3 = S" using writes_only_length [OF w3] l2 by simp
  obtain p4 where st4: "pack_copy_chunk uc 64 (p3, of_nat a4, Hw + ptr_nbytes fc + ptr_nbytes cc + ptr_nbytes mc)
        = Some (p4, of_nat A, nb4)"
    and w4: "writes_only ({64..<64 + 8} \<union> {a4..<a4 + ptr_len uc}) p3 p4"
    and f4: "anc_at p4 64 uc a4"
    using pack_copy_chunk_spec [OF ok(4), of a4 p3 64 "Hw + ptr_nbytes fc + ptr_nbytes cc + ptr_nbytes mc"]
      l3 S64 H80 ord AT
    unfolding A_def nb4_def by auto
  have l4: "length p4 = S" using writes_only_length [OF w4] l3 by simp
  have tp: "(of_nat S - nchunks sc * 8 :: 64 word) = of_nat T"
    by (simp add: S_def nch)
  have uT: "unat (of_nat T :: 64 word) = T"
    by (rule unat_of_nat_64) (use ord S64 in linarith)
  obtain p5 where p5: "store64 p4 72 (of_nat T) = Some p5"
    using store64_ex [of 72 p4] l4 H80 ord AT by auto
  have w5: "writes_only {72..<72 + 8} p4 p5" by (rule writes_only_store64 [OF p5])
  have l5: "length p5 = S" using writes_only_length [OF w5] l4 by simp
  have "\<exists>p6. pack_data_loop ds T 0 n (p5, of_nat (data_pos A ds 0), nb4)
           = Some (p6, of_nat (data_pos A ds (0 + n)),
                   nb4 + sum_list (map chunk_nbytes (take n (drop 0 ds))))
     \<and> writes_only ({data_pos A ds 0..<data_pos A ds (0 + n)} \<union> {T + 8 * 0..<T + 8 * (0 + n)}) p5 p6
     \<and> (\<forall>j. 0 \<le> j \<and> j < 0 + n \<longrightarrow>
            load64 p6 (T + 8 * j) = Some (of_nat (data_pos A ds j))
            \<and> load_bytes p6 (data_pos A ds j) (chunk_len (ds ! j)) = Some (chunk_bytes (ds ! j)))"
    by (rule pack_data_loop_spec [OF ok(5)]) (use l5 S64 in \<open>simp_all add: n_def T_def S_def\<close>)
  then obtain p6 where
    loop: "pack_data_loop ds T 0 n (p5, of_nat A, nb4)
             = Some (p6, of_nat T, nb4 + sum_list (map chunk_nbytes ds))"
    and w6: "writes_only ({A..<T} \<union> {T..<S}) p5 p6"
    and f6: "\<forall>j<n. load64 p6 (T + 8 * j) = Some (of_nat (data_pos A ds j))
            \<and> load_bytes p6 (data_pos A ds j) (chunk_len (ds ! j)) = Some (chunk_bytes (ds ! j))"
    by (auto simp: T_def S_def n_def)
  have l6: "length p6 = S" using writes_only_length [OF w6] l5 by simp
  have lc: "loop_count (nchunks sc) = Some n" using nch nmax by (simp add: loop_count_of_nat)
  have dcase: "(case data sc of
             None \<Rightarrow> Some (p5, of_nat A, nb4)
           | Some ds' \<Rightarrow> do { k \<leftarrow> loop_count (nchunks sc);
                           pack_data_loop ds' (unat (of_nat S - nchunks sc * 8 :: 64 word)) 0 k
                             (p5, of_nat A, nb4) })
        = Some (p6, of_nat T, nb4 + sum_list (map chunk_nbytes ds))"
  proof (cases "data sc")
    case None
    then have "ds = []" by (simp add: ds_def data_list_def)
    then show ?thesis using None loop by (simp add: n_def)
  next
    case (Some ds')
    then have "ds' = ds" by (simp add: ds_def data_list_def)
    then show ?thesis using Some loop lc by (simp add: tp uT)
  qed
  have cb7: "(of_nat T + nchunks sc * 8 :: 64 word) = of_nat S" by (simp add: S_def nch)
  define nb7 where "nb7 = nb4 + sum_list (map chunk_nbytes ds) + nchunks sc * 8"
  obtain p7 where p7: "store64 p6 16 (nchunks sc) = Some p7"
    using store64_ex [of 16 p6] l6 H80 ord AT by auto
  have w7: "writes_only {16..<16 + 8} p6 p7" by (rule writes_only_store64 [OF p7])
  have l7: "length p7 = S" using writes_only_length [OF w7] l6 by simp
  obtain p8 where p8: "store64 p7 24 nb7 = Some p8"
    using store64_ex [of 24 p7] l7 H80 ord AT by auto
  have w8: "writes_only {24..<24 + 8} p7 p8" by (rule writes_only_store64 [OF p8])
  have l8: "length p8 = S" using writes_only_length [OF w8] l7 by simp
  obtain p9 where p9: "store64 p8 32 (of_nat S) = Some p9"
    using store64_ex [of 32 p8] l8 H80 ord AT by auto
  have w9: "writes_only {32..<32 + 8} p8 p9" by (rule writes_only_store64 [OF p9])
  have l9: "length p9 = S" using writes_only_length [OF w9] l8 by simp
  have run: "blosc2_pack_schunk K junk sc = Some p9"
    using gpl p0 st1 st2 st3 st4 p5 dcase p7 p8 p9
    by (simp add: blosc2_pack_schunk_def uS m0_def [symmetric] Hw_def [symmetric]
        fc_def [symmetric] cc_def [symmetric] mc_def [symmetric] uc_def [symmetric]
        HwH [symmetric] tp cb7 nb7_def [symmetric] Let_def)
  have r8: "writes_only {32..<40} p8 p9" using w9 by simp
  have r7: "writes_only {24..<40} p7 p9"
    by (rule writes_only_mono [OF writes_only_trans [OF w8 r8]]) auto
  have r6: "writes_only {16..<40} p6 p9"
    by (rule writes_only_mono [OF writes_only_trans [OF w7 r7]]) auto
  have r5: "writes_only ({16..<40} \<union> {A..<S}) p5 p9"
    by (rule writes_only_mono [OF writes_only_trans [OF w6 r6]]) (use ord AT in auto)
  have r4: "writes_only ({16..<40} \<union> {72..<80} \<union> {A..<S}) p4 p9"
    by (rule writes_only_mono [OF writes_only_trans [OF w5 r5]]) auto
  have r3: "writes_only ({16..<40} \<union> {64..<80} \<union> {a4..<S}) p3 p9"
    by (rule writes_only_mono [OF writes_only_trans [OF w4 r4]]) (use ord AT in \<open>auto simp: A_def\<close>)
  have r2: "writes_only ({16..<40} \<union> {56..<80} \<union> {a3..<S}) p2 p9"
    by (rule writes_only_mono [OF writes_only_trans [OF w3 r3]]) (use ord AT in \<open>auto simp: a4_def\<close>)
  have r1: "writes_only ({16..<40} \<union> {48..<80} \<union> {a2..<S}) p1 p9"
    by (rule writes_only_mono [OF writes_only_trans [OF w2 r2]]) (use ord AT in \<open>auto simp: a3_def\<close>)
  have r0: "writes_only ({16..<40} \<union> {40..<80} \<union> {H..<S}) p0 p9"
    by (rule writes_only_mono [OF writes_only_trans [OF w1 r1]]) (use ord AT in \<open>auto simp: a2_def\<close>)
  have g0: "load_bytes p9 0 16 = Some (take 16 (header_prefix sc))"
  proof -
    have "load_bytes p9 0 16 = load_bytes p0 0 16"
      by (rule writes_only_load [OF r0]) (use H80 in auto)
    then show ?thesis using h0 by simp
  qed
  have g16: "load64 p9 16 = Some (nchunks sc)"
  proof -
    have "load64 p9 16 = load64 p7 16"
      by (rule writes_only_load64 [OF r7]) auto
    then show ?thesis using load64_store64 [OF p7] by simp
  qed
  have g24: "load64 p9 24 = Some nb7"
  proof -
    have "load64 p9 24 = load64 p8 24"
      by (rule writes_only_load64 [OF r8]) auto
    then show ?thesis using load64_store64 [OF p8] by simp
  qed
  have g32: "load64 p9 32 = Some (of_nat S)" by (rule load64_store64 [OF p9])
  have g40: "anc_at p9 40 fc H"
    by (rule anc_at_preserved [OF f1 r1]) (use H80 ord in \<open>auto simp: a2_def\<close>)
  have g48: "anc_at p9 48 cc a2"
    by (rule anc_at_preserved [OF f2 r2]) (use H80 ord in \<open>auto simp: a3_def\<close>)
  have g56: "anc_at p9 56 mc a3"
    by (rule anc_at_preserved [OF f3 r3]) (use H80 ord in \<open>auto simp: a4_def\<close>)
  have g64: "anc_at p9 64 uc a4"
    by (rule anc_at_preserved [OF f4 r4]) (use H80 ord in \<open>auto simp: A_def\<close>)
  have g72: "load64 p9 72 = Some (of_nat T)"
  proof -
    have "load64 p9 72 = load64 p5 72"
      by (rule writes_only_load64 [OF r5]) (use H80 ord in auto)
    then show ?thesis using load64_store64 [OF p5] by simp
  qed
  have gd: "load64 p9 (T + 8 * j) = Some (of_nat (data_pos A ds j))
            \<and> load_bytes p9 (data_pos A ds j) (chunk_len (ds ! j)) = Some (chunk_bytes (ds ! j))"
    if j: "j < n" for j
  proof -
    have lo: "A \<le> data_pos A ds j" using data_pos_mono [of 0 j A ds] by simp
    have "load64 p9 (T + 8 * j) = load64 p6 (T + 8 * j)"
      by (rule writes_only_load64 [OF r6]) (use H80 ord AT in auto)
    moreover have "load_bytes p9 (data_pos A ds j) (chunk_len (ds ! j))
        = load_bytes p6 (data_pos A ds j) (chunk_len (ds ! j))"
      by (rule writes_only_load [OF r6]) (use H80 ord lo in auto)
    ultimately show ?thesis using f6 j by simp
  qed
  have nb7eq: "nb7 = Hw + sum_ancillary_nbytes sc
                              + sum_data_nbytes sc + nchunks sc * 8"
    by (simp add: nb7_def nb4_def sum_ancillary_nbytes_def sum_data_nbytes_def Hw_def fc_def cc_def
        mc_def uc_def ds_def)
  have "image_layout K sc p9"
    unfolding image_layout_def Seq Aeq
    using l9 g0 g16 g24 g32 g40 g48 g56 g64 g72 gd
    by (simp add: nb7eq [symmetric] Hw_def [symmetric] H_def [symmetric] fc_def [symmetric]
        cc_def [symmetric] mc_def [symmetric] uc_def [symmetric] ds_def [symmetric]
        n_def [symmetric] a2_def [symmetric] a3_def [symmetric] a4_def [symmetric]
        T_def [symmetric])
  with run show ?thesis by blast
qed

section \<open>Lemmas: unpack reads the layout back\<close>

lemma of_nat_64_neq_0: "0 < x \<Longrightarrow> x < 2 ^ 64 \<Longrightarrow> (of_nat x :: 64 word) \<noteq> 0"
  using unat_of_nat_64 [of x] by fastforce

lemma chunk_at_prefix:
  assumes at: "load_bytes img pos (chunk_len c) = Some (chunk_bytes c)" and ok: "chunk_ok c"
    and q: "q + 4 \<le> 16"
  shows "load32 img (pos + q) = load32 c q"
proof -
  have "q + 4 \<le> chunk_len c" using chunk_ok_len [OF ok] q by simp
  from load_bytes_sub [OF at this]
  have "load32 img (pos + q) = load32 (chunk_bytes c) q" by (simp add: load32_def)
  then show ?thesis using load32_chunk_bytes [OF ok q] by simp
qed

lemma unpack_copy_chunk_spec:
  assumes at: "anc_at img off p pos" and ok: "ptr_ok p" and pos: "0 < pos" "pos < 2 ^ 64"
  shows "unpack_copy_chunk img off (sc, nbr, cbr)
    = Some (ptr_chunk p,
            sc \<lparr> nbytes := nbytes sc + ptr_nbytes p, cbytes := cbytes sc + ptr_cbytes p \<rparr>,
            nbr + ptr_nbytes p, cbr + ptr_cbytes p)"
proof (cases p)
  case NULL
  then show ?thesis using at
    by (simp add: unpack_copy_chunk_def anc_at_def ptr_chunk_def ptr_nbytes_def ptr_cbytes_def)
next
  case Dangling
  then show ?thesis using ok by (simp add: ptr_ok_def)
next
  case (Ptr c)
  then have cok: "chunk_ok c" using ok by (simp add: ptr_ok_def)
  have off: "load64 img off = Some (of_nat pos)"
    and cat: "load_bytes img pos (chunk_len c) = Some (chunk_bytes c)"
    using at Ptr by (simp_all add: anc_at_def)
  from cok obtain cb where cb: "load32 c 12 = Some cb" "16 \<le> sint cb" "chunk_len c = nat (sint cb)"
    by (rule chunk_ok_cb)
  from cok obtain nb where nb: "load32 c 4 = Some nb" "chunk_nbytes c = scast nb"
    using chunk_ok_load4 by blast
  have cb0: "0 \<le> sint cb" using cb(2) by linarith
  have ucb: "unat (scast cb :: 64 word) = chunk_len c"
    by (simp only: unat_scast_nonneg [OF cb0] cb(3))
  have upos: "unat (of_nat pos :: 64 word) = pos" by (rule unat_of_nat_64 [OF pos(2)])
  have nz: "(of_nat pos :: 64 word) \<noteq> 0" by (rule of_nat_64_neq_0 [OF pos])
  have l4: "load32 img (pos + 4) = Some nb" using chunk_at_prefix [OF cat cok, of 4] nb by simp
  have l12: "load32 img (pos + 12) = Some cb" using chunk_at_prefix [OF cat cok, of 12] cb by simp
  have cbw: "chunk_cbytes c = scast cb" using cb(1) by (simp add: chunk_cbytes_def)
  show ?thesis using Ptr off nz
    by (simp add: unpack_copy_chunk_def upos l4 l12 ucb cat ptr_chunk_def ptr_nbytes_def
        ptr_cbytes_def nb(2) cbw)
qed

lemma unpack_data_loop_spec:
  assumes ok: "list_all chunk_ok ds"
    and facts: "\<forall>j<length ds. load64 img (tp + 8 * j) = Some (of_nat (data_pos a ds j))
            \<and> load_bytes img (data_pos a ds j) (chunk_len (ds ! j)) = Some (chunk_bytes (ds ! j))"
    and lt: "data_pos a ds (length ds) < 2 ^ 64"
    and ik: "i + k \<le> length ds"
  shows "unpack_data_loop img tp i k (acc, cbr, nbr)
     = Some (acc @ map chunk_bytes (take k (drop i ds)),
             cbr + sum_list (map chunk_cbytes (take k (drop i ds))),
             nbr + sum_list (map chunk_nbytes (take k (drop i ds))))"
  using ik
proof (induction k arbitrary: i acc cbr nbr)
  case 0
  show ?case by simp
next
  case (Suc k)
  let ?c = "ds ! i"
  let ?q = "data_pos a ds i"
  have i: "i < length ds" using Suc.prems by simp
  have cok: "chunk_ok ?c" using ok i by (simp add: list_all_length)
  have e: "load64 img (tp + 8 * i) = Some (of_nat ?q)"
    and cat: "load_bytes img ?q (chunk_len ?c) = Some (chunk_bytes ?c)"
    using facts i by simp_all
  have "?q \<le> data_pos a ds (length ds)" by (rule data_pos_mono) (use i in simp)
  then have "?q < 2 ^ 64" using lt by linarith
  then have uq: "unat (of_nat ?q :: 64 word) = ?q" by (rule unat_of_nat_64)
  from cok obtain cb where cb: "load32 ?c 12 = Some cb" "16 \<le> sint cb" "chunk_len ?c = nat (sint cb)"
    by (rule chunk_ok_cb)
  from cok obtain nb where nb: "load32 ?c 4 = Some nb" "chunk_nbytes ?c = scast nb"
    using chunk_ok_load4 by blast
  have cb0: "0 \<le> sint cb" using cb(2) by linarith
  have ucb: "unat (scast cb :: 64 word) = chunk_len ?c"
    by (simp only: unat_scast_nonneg [OF cb0] cb(3))
  have l4: "load32 img (?q + 4) = Some nb" using chunk_at_prefix [OF cat cok, of 4] nb by simp
  have l12: "load32 img (?q + 12) = Some cb" using chunk_at_prefix [OF cat cok, of 12] cb by simp
  have cbw: "chunk_cbytes ?c = scast cb" using cb(1) by (simp add: chunk_cbytes_def)
  have ucb': "unat (chunk_cbytes ?c) = chunk_len ?c" using ucb by (simp only: cbw)
  have "Suc i + k \<le> length ds" using Suc.prems by simp
  from Suc.IH [OF this] show ?case
    using i by (simp add: e uq l4 l12 ucb' cat take_Suc_drop nb(2) [symmetric] cbw [symmetric] add.assoc)
qed

lemma take16_header_prefix:
  "take 16 (header_prefix sc)
     = [version sc, 0, 0, 0] @ le_encode 2 (compressor sc) @ le_encode 2 (clevel sc)
       @ le_encode 2 (filters sc) @ le_encode 2 (filters_meta sc) @ [0, 0, 0, 0]"
  by (simp add: header_prefix_def)

lemma header_fields:
  assumes h: "load_bytes img 0 16 = Some (take 16 (header_prefix sc))"
  shows "nth_opt img 0 = Some (version sc)" "load16 img 4 = Some (compressor sc)"
    "load16 img 6 = Some (clevel sc)" "load16 img 8 = Some (filters sc)"
    "load16 img 10 = Some (filters_meta sc)"
proof -
  have len: "16 \<le> length img" and nth: "\<forall>i<16. take 16 (header_prefix sc) ! i = img ! i"
    using h by (auto simp: load_bytes_Some_iff)
  have "take 16 (header_prefix sc) ! 0 = version sc" by (simp add: take16_header_prefix)
  moreover have "0 < length img" using len by linarith
  ultimately show "nth_opt img 0 = Some (version sc)" using nth by (simp add: nth_opt_def)
  have sub: "load_bytes img q 2 = load_bytes (take 16 (header_prefix sc)) q 2" if "q + 2 \<le> 16" for q
    using load_bytes_sub [OF h that] by simp
  have f4: "load_bytes (take 16 (header_prefix sc)) 4 2 = Some (le_encode 2 (compressor sc))"
    and f6: "load_bytes (take 16 (header_prefix sc)) 6 2 = Some (le_encode 2 (clevel sc))"
    and f8: "load_bytes (take 16 (header_prefix sc)) 8 2 = Some (le_encode 2 (filters sc))"
    and f10: "load_bytes (take 16 (header_prefix sc)) 10 2 = Some (le_encode 2 (filters_meta sc))"
    by (simp_all add: take16_header_prefix load_bytes_def)
  show "load16 img 4 = Some (compressor sc)" using sub [of 4] f4 by (simp add: load16_def)
  show "load16 img 6 = Some (clevel sc)" using sub [of 6] f6 by (simp add: load16_def)
  show "load16 img 8 = Some (filters sc)" using sub [of 8] f8 by (simp add: load16_def)
  show "load16 img 10 = Some (filters_meta sc)" using sub [of 10] f10 by (simp add: load16_def)
qed

lemma unpack_layout:
  assumes wf: "wf_schunk K sc" and lay: "image_layout K sc img"
    and addr: "addr + of_nat (data_pos (anc_end K sc) (data_list sc) (length (data_list sc))) \<noteq> 0"
  shows "blosc2_unpack_schunk K addr img
    = Some \<lparr> version = version sc, compressor = compressor sc, clevel = clevel sc,
             filters = filters sc, filters_meta = filters_meta sc, nchunks = nchunks sc,
             nbytes = BLOSC_HEADER_PACKED_LENGTH K + sum_ancillary_nbytes sc
                      + sum_data_nbytes sc + nchunks sc * 8,
             cbytes = of_nat (packed_size K sc),
             filters_chunk = ptr_chunk (filters_chunk sc),
             codec_chunk = ptr_chunk (codec_chunk sc),
             metadata_chunk = ptr_chunk (metadata_chunk sc),
             userdata_chunk = ptr_chunk (userdata_chunk sc),
             data = Some (map chunk_bytes (data_list sc)) \<rparr>"
proof -
  define Hw where "Hw = BLOSC_HEADER_PACKED_LENGTH K"
  define H where "H = unat Hw"
  define fc where "fc = filters_chunk sc"
  define cc where "cc = codec_chunk sc"
  define mc where "mc = metadata_chunk sc"
  define uc where "uc = userdata_chunk sc"
  define ds where "ds = data_list sc"
  define n where "n = length ds"
  define a2 where "a2 = H + ptr_len fc"
  define a3 where "a3 = a2 + ptr_len cc"
  define a4 where "a4 = a3 + ptr_len mc"
  define A where "A = a4 + ptr_len uc"
  define T where "T = data_pos A ds n"
  define S where "S = T + 8 * n"
  have Aeq: "anc_end K sc = A"
    by (simp add: anc_end_def A_def a4_def a3_def a2_def H_def Hw_def fc_def cc_def mc_def uc_def)
  have Seq: "packed_size K sc = S"
    by (simp add: packed_size_def Aeq S_def T_def data_pos_all n_def ds_def)
  have ok: "ptr_ok fc" "ptr_ok cc" "ptr_ok mc" "ptr_ok uc" "list_all chunk_ok ds"
    and nch: "nchunks sc = of_nat n" and nmax: "n \<le> 2147483647" and H80: "80 \<le> H"
    and S63: "S < 2 ^ 63"
    using wf Seq by (simp_all add: wf_schunk_def fc_def cc_def mc_def uc_def ds_def n_def H_def Hw_def)
  have S64: "S < 2 ^ 64"
  proof -
    have "(2 :: nat) ^ 63 < 2 ^ 64" by simp
    with S63 show ?thesis by (rule less_trans)
  qed
  have AT: "A \<le> T" using data_pos_mono [of 0 n A ds] by (simp add: T_def)
  have ord: "H \<le> a2" "a2 \<le> a3" "a3 \<le> a4" "a4 \<le> A" "T \<le> S"
    by (simp_all add: a2_def a3_def a4_def A_def S_def)
  have g0: "load_bytes img 0 16 = Some (take 16 (header_prefix sc))"
    and g16: "load64 img 16 = Some (nchunks sc)"
    and g24: "load64 img 24 = Some (Hw + sum_ancillary_nbytes sc + sum_data_nbytes sc + nchunks sc * 8)"
    and g32: "load64 img 32 = Some (of_nat S)"
    and g40: "anc_at img 40 fc H" and g48: "anc_at img 48 cc a2"
    and g56: "anc_at img 56 mc a3" and g64: "anc_at img 64 uc a4"
    and g72: "load64 img 72 = Some (of_nat T)"
    and gd: "\<forall>j<length ds. load64 img (T + 8 * j) = Some (of_nat (data_pos A ds j))
           \<and> load_bytes img (data_pos A ds j) (chunk_len (ds ! j)) = Some (chunk_bytes (ds ! j))"
    using lay unfolding image_layout_def Seq Aeq
    by (simp_all add: Hw_def H_def fc_def cc_def mc_def uc_def ds_def n_def a2_def a3_def a4_def T_def)
  note hf = header_fields [OF g0]
  define sc0 where "sc0 = \<lparr> version = version sc, compressor = compressor sc, clevel = clevel sc,
       filters = filters sc, filters_meta = filters_meta sc,
       nchunks = nchunks sc,
       nbytes = Hw + sum_ancillary_nbytes sc + sum_data_nbytes sc + nchunks sc * 8,
       cbytes = of_nat S,
       filters_chunk = NULL, codec_chunk = NULL, metadata_chunk = NULL,
       userdata_chunk = NULL, data = None \<rparr>"
  have pos: "0 < H" "H < 2 ^ 64" "0 < a2" "a2 < 2 ^ 64" "0 < a3" "a3 < 2 ^ 64" "0 < a4" "a4 < 2 ^ 64"
    using H80 ord AT S64 by simp_all
  note u1 = unpack_copy_chunk_spec [OF g40 ok(1) pos(1,2)]
  note u2 = unpack_copy_chunk_spec [OF g48 ok(2) pos(3,4)]
  note u3 = unpack_copy_chunk_spec [OF g56 ok(3) pos(5,6)]
  note u4 = unpack_copy_chunk_spec [OF g64 ok(4) pos(7,8)]
  have uT: "unat (of_nat T :: 64 word) = T"
    by (rule unat_of_nat_64) (use ord S64 in linarith)
  have lc: "loop_count (of_nat n) = Some n" using nmax by (rule loop_count_of_nat)
  have dT: "data_pos A ds (length ds) < 2 ^ 64" using ord S64 by (simp add: T_def n_def)
  have "0 + n \<le> length ds" by (simp add: n_def)
  from unpack_data_loop_spec [OF ok(5) _ dT this, of img T] gd
  have loop: "unpack_data_loop img T 0 n ([], cbr, nbr)
     = Some (map chunk_bytes ds, cbr + sum_list (map chunk_cbytes ds),
             nbr + sum_list (map chunk_nbytes ds))" for cbr nbr
    by (simp add: n_def T_def)
  have addr': "addr + of_nat T \<noteq> 0" using addr by (simp add: Aeq T_def ds_def n_def)
  have Sw: "(of_nat S :: 64 word) = Hw + sum_ancillary_cbytes sc + sum_data_cbytes sc + of_nat n * 8"
    using packed_size_word [OF wf] by (simp add: Seq Hw_def nch)
  show ?thesis
    unfolding blosc2_unpack_schunk_def
    using hf g16 g24 g32 g72 addr'
    by (simp add: Hw_def [symmetric] Seq u1 u2 u3 u4 nch lc uT loop Sw Let_def
        sum_ancillary_nbytes_def sum_data_nbytes_def sum_ancillary_cbytes_def sum_data_cbytes_def
        fc_def [symmetric] cc_def [symmetric] mc_def [symmetric] uc_def [symmetric]
        ds_def [symmetric] ac_simps)
qed

lemma wf_delta_sc1: "wf_schunk std_consts delta_sc1"
proof -
  have a: "ptr_ok (filters_chunk delta_sc1) \<and> ptr_ok (codec_chunk delta_sc1)
     \<and> ptr_ok (metadata_chunk delta_sc1) \<and> ptr_ok (userdata_chunk delta_sc1)
     \<and> list_all chunk_ok (data_list delta_sc1)
     \<and> nchunks delta_sc1 = of_nat (length (data_list delta_sc1))"
    by code_simp
  have "length (data_list delta_sc1) = 1" by code_simp
  then have c: "length (data_list delta_sc1) \<le> 2147483647" by simp
  have d: "80 \<le> unat (BLOSC_HEADER_PACKED_LENGTH std_consts)" by (simp add: std_consts_def)
  have "packed_size std_consts delta_sc1 = 142" by code_simp
  then have b: "packed_size std_consts delta_sc1 < 2 ^ 63" by simp
  show ?thesis unfolding wf_schunk_def using a b c d by blast
qed

lemma packed_size_delta_sc1: "packed_size std_consts delta_sc1 = 142"
  by code_simp

section \<open>The length of a packed image\<close>

text \<open>
  Claim C8: for every (well-formed) super-chunk, the image that \<open>pack\<close> produces has
  length exactly \<open>get_packed_length\<close>, which is \<open>PACKED_HEADER_LEN\<close> plus the \<open>cbytes\<close> of
  the ancillary chunks present plus the \<open>cbytes\<close> of the data chunks plus \<open>nchunks \<times> 8\<close>;
  the sum does not wrap: as a natural number it is \<open>packed_size\<close>. In particular \<open>pack\<close>
  returns an image: no write leaves the buffer and the assertion on \<open>cbytes\<close> holds.
\<close>

theorem C8_pack_length:
  assumes wf: "wf_schunk K sc"
  shows "\<exists>img len. blosc2_pack_schunk K junk sc = Some img
    \<and> blosc2_get_packed_length K sc = Some len
    \<and> length img = unat len
    \<and> len = BLOSC_HEADER_PACKED_LENGTH K + sum_ancillary_cbytes sc + sum_data_cbytes sc
            + nchunks sc * 8
    \<and> unat len = packed_size K sc"
proof -
  from pack_layout [OF wf] obtain img
    where run: "blosc2_pack_schunk K junk sc = Some img" and lay: "image_layout K sc img"
    by blast
  have len: "length img = packed_size K sc" using lay by (simp add: image_layout_def)
  have "packed_size K sc < 2 ^ 63" using wf by (simp add: wf_schunk_def)
  moreover have "(2 :: nat) ^ 63 < 2 ^ 64" by simp
  ultimately have "packed_size K sc < 2 ^ 64" by (rule less_trans)
  then have u: "unat (of_nat (packed_size K sc) :: 64 word) = packed_size K sc"
    by (rule unat_of_nat_64)
  show ?thesis
    using run get_packed_length_nat [OF wf] len u packed_size_word [OF wf] by simp
qed

theorem C8_pack_length_witness:
  "\<exists>img len. blosc2_pack_schunk std_consts zero_junk delta_sc1 = Some img
    \<and> blosc2_get_packed_length std_consts delta_sc1 = Some len
    \<and> length img = unat len
    \<and> len = BLOSC_HEADER_PACKED_LENGTH std_consts + sum_ancillary_cbytes delta_sc1
            + sum_data_cbytes delta_sc1 + nchunks delta_sc1 * 8
    \<and> unat len = packed_size std_consts delta_sc1"
  by (rule C8_pack_length [OF wf_delta_sc1])

section \<open>Packing and unpacking\<close>

text \<open>
  Claim C1, as stated: unpacking the image of a live super-chunk gives the same
  \<open>nchunks\<close>, identical \<open>nbytes\<close> and \<open>cbytes\<close>, and byte-equal chunks. The \<open>nbytes\<close> differ:
  \<open>pack\<close> counts the packed header and the offsets table in the \<open>nbytes\<close> of the image,
  and \<open>unpack\<close> stores that total (it asserts the equality with byte 24). A super-chunk
  with one chunk of 3 bytes has \<open>nbytes = 3\<close> and comes back with \<open>nbytes = 107\<close>, which is
  \<open>96 + 3 + 8\<close>.
\<close>

theorem C1_unpack_pack_changes_nbytes:
  "blosc2_new_schunk std_consts shuffle_params = Some shuffle_sc0
   \<and> blosc2_append_buffer std_consts store_codec () shuffle_sc0 1 3 [7, 8, 9]
       = Some (1, shuffle_sc1, (), [])
   \<and> nbytes shuffle_sc1 = 3
   \<and> blosc2_pack_schunk std_consts zero_junk shuffle_sc1 \<bind> blosc2_unpack_schunk std_consts 4096
       = Some (shuffle_sc1 \<lparr> nbytes := 107 \<rparr>)"
  by code_simp

text \<open>
  Claim C1, amended: for every well-formed live super-chunk, whose image is placed at an
  address \<open>addr\<close> that is not null and leaves room for it, \<open>pack\<close> returns an image and
  \<open>unpack\<close> of it returns a super-chunk with the same configuration and \<open>nchunks\<close>, with each
  ancillary chunk and each data chunk byte-equal (the \<open>cbytes\<close> bytes of the chunk, in a
  buffer of that size), with \<open>cbytes\<close> equal to \<open>get_packed_length\<close> of the original, and
  with \<open>nbytes\<close> equal to \<open>PACKED_HEADER_LEN\<close> plus the \<open>nbytes\<close> of the ancillary chunks
  present plus the \<open>nbytes\<close> of the data chunks plus \<open>nchunks \<times> 8\<close>.
\<close>

theorem C1_unpack_pack:
  assumes wf: "wf_schunk K sc"
    and addr: "0 < unat addr" "unat addr + packed_size K sc < 2 ^ 64"
  shows "\<exists>img. blosc2_pack_schunk K junk sc = Some img
    \<and> blosc2_get_packed_length K sc = Some (of_nat (packed_size K sc))
    \<and> blosc2_unpack_schunk K addr img
      = Some \<lparr> version = version sc, compressor = compressor sc, clevel = clevel sc,
             filters = filters sc, filters_meta = filters_meta sc, nchunks = nchunks sc,
             nbytes = BLOSC_HEADER_PACKED_LENGTH K + sum_ancillary_nbytes sc
                      + sum_data_nbytes sc + nchunks sc * 8,
             cbytes = of_nat (packed_size K sc),
             filters_chunk = ptr_chunk (filters_chunk sc),
             codec_chunk = ptr_chunk (codec_chunk sc),
             metadata_chunk = ptr_chunk (metadata_chunk sc),
             userdata_chunk = ptr_chunk (userdata_chunk sc),
             data = Some (map chunk_bytes (data_list sc)) \<rparr>"
proof -
  let ?T = "data_pos (anc_end K sc) (data_list sc) (length (data_list sc))"
  from pack_layout [OF wf] obtain img
    where run: "blosc2_pack_schunk K junk sc = Some img" and lay: "image_layout K sc img"
    by blast
  have TS: "?T \<le> packed_size K sc" by (simp add: packed_size_def data_pos_all)
  have T64: "?T < 2 ^ 64" using TS addr(2) by linarith
  have "unat addr + unat (of_nat ?T :: 64 word) < 2 ^ LENGTH(64)"
    using TS addr(2) by (simp add: unat_of_nat_64 [OF T64])
  then have "unat (addr + of_nat ?T) = unat addr + unat (of_nat ?T :: 64 word)"
    by (simp only: unat_add_lem)
  then have "0 < unat (addr + of_nat ?T)" using addr(1) by linarith
  then have nz: "addr + of_nat ?T \<noteq> 0" by fastforce
  from unpack_layout [OF wf lay nz] run get_packed_length_nat [OF wf]
  show ?thesis by blast
qed

theorem C1_unpack_pack_witness:
  "\<exists>img. blosc2_pack_schunk std_consts zero_junk delta_sc1 = Some img
    \<and> blosc2_get_packed_length std_consts delta_sc1 = Some (of_nat (packed_size std_consts delta_sc1))
    \<and> blosc2_unpack_schunk std_consts 4096 img
      = Some \<lparr> version = version delta_sc1, compressor = compressor delta_sc1,
             clevel = clevel delta_sc1, filters = filters delta_sc1,
             filters_meta = filters_meta delta_sc1, nchunks = nchunks delta_sc1,
             nbytes = BLOSC_HEADER_PACKED_LENGTH std_consts + sum_ancillary_nbytes delta_sc1
                      + sum_data_nbytes delta_sc1 + nchunks delta_sc1 * 8,
             cbytes = of_nat (packed_size std_consts delta_sc1),
             filters_chunk = ptr_chunk (filters_chunk delta_sc1),
             codec_chunk = ptr_chunk (codec_chunk delta_sc1),
             metadata_chunk = ptr_chunk (metadata_chunk delta_sc1),
             userdata_chunk = ptr_chunk (userdata_chunk delta_sc1),
             data = Some (map chunk_bytes (data_list delta_sc1)) \<rparr>"
proof -
  have a: "0 < unat (4096 :: 64 word)" by simp
  have b: "unat (4096 :: 64 word) + packed_size std_consts delta_sc1 < 2 ^ 64"
    by (simp add: packed_size_delta_sc1)
  show ?thesis by (rule C1_unpack_pack [OF wf_delta_sc1 a b])
qed


section \<open>The uncompressed total of the live form\<close>

lemma nat_sint_unat:
  assumes "0 \<le> sint (w :: 64 word)"
  shows "nat (sint w) = unat w"
proof -
  have "sint w < 2 ^ 63" using sint_lt [of w] by simp
  moreover have "(2 :: int) ^ 63 < 2 ^ 64" by simp
  ultimately have "sint w < 2 ^ 64" by (rule less_trans)
  then have "take_bit 64 (sint w) = sint w" using assms by (simp add: take_bit_int_eq_self)
  then have "uint w = sint w" using uint_sint [of w] by simp
  then have "nat (sint w) = nat (uint w)" by simp
  then show ?thesis by simp
qed

lemma unat_plus_one:
  assumes "0 \<le> sint (w :: 64 word)"
  shows "unat (w + 1) = unat w + 1"
proof -
  have "sint w < 9223372036854775808" using sint_lt [of w] by simp
  moreover have "int (unat w) = sint w" using nat_sint_unat [OF assms] assms by linarith
  ultimately have "unat w < 9223372036854775808" by linarith
  then have "unat w + unat (1 :: 64 word) < 2 ^ LENGTH(64)" by simp
  then have "unat (w + 1) = unat w + unat (1 :: 64 word)" by (simp only: unat_add_lem)
  then show ?thesis by simp
qed

lemma append_chunk_inv:
  assumes inv: "live_inv sc" and run: "blosc2_append_chunk sc chunk copy = Some (r, sc')"
    and ok: "copy \<Longrightarrow> chunk_ok chunk"
  shows "live_inv sc'"
proof -
  let ?ds = "data_list sc"
  from run obtain nb cb chunk' where nb: "load32 chunk 4 = Some nb" and cb: "load32 chunk 12 = Some cb"
    and ch: "(if copy then load_bytes chunk 0 (unat (scast cb :: 64 word)) else Some chunk) = Some chunk'"
    and g: "\<not> (sint (nchunks sc) < 0 \<or> length ?ds < nat (sint (nchunks sc)))"
    and sc': "sc' = sc \<lparr> data := Some (take (nat (sint (nchunks sc))) ?ds @ [chunk']),
                       nchunks := nchunks sc + 1,
                       nbytes := nbytes sc + scast nb,
                       cbytes := cbytes sc + (scast cb + 8) \<rparr>"
    by (auto simp: blosc2_append_chunk_def Let_def data_list_def split: bind_splits if_splits)
  have n0: "0 \<le> sint (nchunks sc)" using g by simp
  have len: "nat (sint (nchunks sc)) = length ?ds"
    using inv nat_sint_unat [OF n0] by (simp add: live_inv_def)
  have nbc: "chunk_nbytes chunk' = scast nb"
  proof (cases copy)
    case False
    then show ?thesis using ch nb by (simp add: chunk_nbytes_def)
  next
    case True
    from ok [OF True] obtain cb' where c: "load32 chunk 12 = Some cb'" "16 \<le> sint cb'"
      by (rule chunk_ok_cb)
    then have cb16: "16 \<le> sint cb" using cb by simp
    then have u: "unat (scast cb :: 64 word) = nat (sint cb)" by (intro unat_scast_nonneg) linarith
    have "chunk' = take (nat (sint cb)) chunk" using ch True u by (simp add: load_bytes_def split: if_splits)
    moreover have "load_bytes (take (nat (sint cb)) chunk) 4 4 = load_bytes chunk 4 4"
      by (rule load_bytes_take) (use cb16 in linarith)
    ultimately show ?thesis using nb by (auto simp: chunk_nbytes_def load32_def)
  qed
  have dl: "data_list sc' = ?ds @ [chunk']" using sc' len by (simp add: data_list_def)
  show ?thesis using inv sc' dl nbc unat_plus_one [OF n0]
    by (simp add: live_inv_def sum_data_nbytes_def)
qed

lemma set_delta_ref_frame:
  "blosc2_set_delta_ref K cd g sc n ref = Some (r, sc', lk) \<Longrightarrow>
     nbytes sc' = nbytes sc \<and> nchunks sc' = nchunks sc \<and> data sc' = data sc"
  by (auto simp: blosc2_set_delta_ref_def Let_def
           split: bind_splits if_splits chunk_ptr.splits prod.splits)

lemma set_delta_ref_inv:
  "live_inv sc \<Longrightarrow> blosc2_set_delta_ref K cd g sc n ref = Some (r, sc', lk) \<Longrightarrow> live_inv sc'"
  using set_delta_ref_frame [of K cd g sc n ref r sc' lk]
  by (simp add: live_inv_def sum_data_nbytes_def data_list_def)

lemma append_buffer_compress_inv:
  assumes "live_inv sc" and "append_buffer_compress K cd g sc d ts n src = Some (r, sc', g', lk)"
  shows "live_inv sc'"
  using assms append_chunk_inv [of sc _ False]
  by (auto simp: append_buffer_compress_def Let_def split: prod.splits if_splits bind_splits)

lemma append_buffer_inv:
  assumes inv: "live_inv sc" and run: "blosc2_append_buffer K cd g sc ts n src = Some (r, sc', g', lk)"
  shows "live_inv sc'"
proof -
  from run obtain f0 where f0: "nth_opt (decode_filters K (filters sc)) 0 = Some f0"
    by (auto simp: blosc2_append_buffer_def Let_def split: bind_splits)
  show ?thesis
  proof (cases "f0 = BLOSC_DELTA K \<and> filters_chunk sc = NULL")
    case True
    from run f0 True
    have e1: "(nth_opt (decode_filters K (filters sc)) 1 \<bind> (\<lambda>f1.
                blosc2_set_delta_ref K cd g sc n src \<bind> (\<lambda>(ret, sc1, lk0).
                  if sint ret < 0 then Some (scast ret, sc1, g, lk0 @ [''chunk'', ''dec_filters''])
                  else append_buffer_compress K cd g sc1 (ucast f1) ts n src)))
              = Some (r, sc', g', lk)"
      by (simp add: blosc2_append_buffer_def Let_def)
    obtain f1 where f1: "nth_opt (decode_filters K (filters sc)) 1 = Some f1"
      using e1 by (cases "nth_opt (decode_filters K (filters sc)) 1") simp_all
    obtain t where sdr': "blosc2_set_delta_ref K cd g sc n src = Some t"
      using e1 f1 by (cases "blosc2_set_delta_ref K cd g sc n src") simp_all
    have rest': "(case t of (ret, sc1, lk0) \<Rightarrow>
                      if sint ret < 0 then Some (scast ret, sc1, g, lk0 @ [''chunk'', ''dec_filters''])
                      else append_buffer_compress K cd g sc1 (ucast f1) ts n src) = Some (r, sc', g', lk)"
      using e1 f1 sdr' by simp
    obtain ret sc1 lk0 where t: "t = (ret, sc1, lk0)" by (cases t)
    have sdr: "blosc2_set_delta_ref K cd g sc n src = Some (ret, sc1, lk0)" using sdr' t by simp
    have rest: "(if sint ret < 0 then Some (scast ret, sc1, g, lk0 @ [''chunk'', ''dec_filters''])
                    else append_buffer_compress K cd g sc1 (ucast f1) ts n src) = Some (r, sc', g', lk)"
      using rest' t by simp
    have i1: "live_inv sc1" by (rule set_delta_ref_inv [OF inv sdr])
    show ?thesis
    proof (cases "sint ret < 0")
      case True
      then show ?thesis using rest i1 by simp
    next
      case False
      then have "append_buffer_compress K cd g sc1 (ucast f1) ts n src = Some (r, sc', g', lk)"
        using rest by simp
      then show ?thesis by (rule append_buffer_compress_inv [OF i1])
    qed
  next
    case False
    from run f0 False obtain d
      where "append_buffer_compress K cd g sc d ts n src = Some (r, sc', g', lk)"
      by (auto simp: blosc2_append_buffer_def Let_def split: bind_splits if_splits chunk_ptr.splits)
    then show ?thesis by (rule append_buffer_compress_inv [OF inv])
  qed
qed

lemma new_schunk_inv: "blosc2_new_schunk K params = Some sc \<Longrightarrow> live_inv sc"
  by (auto simp: blosc2_new_schunk_def live_inv_def sum_data_nbytes_def data_list_def split: bind_splits)

lemma run_appends_inv:
  "live_inv sc \<Longrightarrow> list_all op_ok ops \<Longrightarrow> run_appends K cd sc ops = Some sc' \<Longrightarrow> live_inv sc'"
proof (induction ops arbitrary: sc)
  case Nil
  then show ?case by simp
next
  case (Cons op ops)
  show ?case
  proof (cases op)
    case (Append_chunk chunk copy)
    then obtain r sc1 where a: "blosc2_append_chunk sc chunk copy = Some (r, sc1)"
      and b: "run_appends K cd sc1 ops = Some sc'"
      using Cons.prems(3) by (auto split: bind_splits)
    have "copy \<Longrightarrow> chunk_ok chunk" using Cons.prems(2) Append_chunk by (simp add: op_ok_def)
    from append_chunk_inv [OF Cons.prems(1) a this] have "live_inv sc1" by simp
    then show ?thesis using Cons.IH b Cons.prems(2) by simp
  next
    case (Append_buffer g ts n src)
    then obtain r sc1 g' lk where a: "blosc2_append_buffer K cd g sc ts n src = Some (r, sc1, g', lk)"
      and b: "run_appends K cd sc1 ops = Some sc'"
      using Cons.prems(3) by (auto split: bind_splits)
    from append_buffer_inv [OF Cons.prems(1) a] have "live_inv sc1" .
    then show ?thesis using Cons.IH b Cons.prems(2) by simp
  qed
qed

text \<open>
  Claim C5, amended: for every super-chunk reached by \<open>new\<close> followed by append
  operations (\<open>append_chunk\<close>, a copied chunk being well formed, and \<open>append_buffer\<close>, whether
  or not the codec succeeds), \<open>nbytes\<close> equals the sum of \<open>nbytes\<close> over the data chunks; the
  ancillary chunks stored, the DELTA reference among them, are not counted.
\<close>

theorem C5_nbytes_is_data_total:
  assumes "blosc2_new_schunk K params = Some sc0"
    and "run_appends K cd sc0 ops = Some sc"
    and "list_all op_ok ops"
  shows "nbytes sc = sum_data_nbytes sc"
  using run_appends_inv [OF new_schunk_inv [OF assms(1)] assms(3) assms(2)]
  by (simp add: live_inv_def)

theorem C5_nbytes_is_data_total_witness:
  "nbytes delta_sc1 = sum_data_nbytes delta_sc1"
proof -
  have a: "blosc2_new_schunk std_consts delta_params = Some delta_sc0" by code_simp
  have b: "run_appends std_consts store_codec delta_sc0 [Append_buffer () 1 3 [7, 8, 9]] = Some delta_sc1"
    by code_simp
  have c: "list_all op_ok [Append_buffer () 1 3 [7, 8, 9] :: unit append_op]" by code_simp
  show ?thesis by (rule C5_nbytes_is_data_total [OF a b c])
qed

end
